theory Spec2Isabelle
  imports Main "HOL-Library.Sublist" "HOL-Library.Word"
begin

section \<open>Data model of \<open>kudu/consensus/local_consensus.cc\<close>\<close>

text \<open>
  The engine \<open>LocalConsensus\<close> is embedded by explicit state passing. Every method
  takes the engine (and the round it works on) and gives back an outcome: the returned
  \<open>Status\<close> with the updated objects, a fatal abort (a failed \<open>CHECK\<close>, or a failed
  \<open>DCHECK\<close> in a debug build), or undefined behaviour (a null or out-of-range
  dereference). The results of the external collaborators (the log, the transaction
  factory, the metadata flush, quorum validation) are parameters of the methods, so
  every theorem holds for whatever they answer.
\<close>

subsection \<open>Status\<close>

text \<open>
  Modelled from the spec: \<open>kudu/util/status.h\<close> is not part of the source. The error kinds
  are those of the spec's taxonomy (section 7): \<open>InvalidQuorum\<close>, \<open>NotSupported\<close> and a
  log or storage error. A status is \<open>OK\<close> or an error kind with its message.
\<close>

datatype ErrorCode = InvalidQuorum | NotSupported | StorageError

datatype Status = OK | Error ErrorCode string

text \<open>
  \<open>RETURN_NOT_OK_PREPEND(s, msg)\<close> returns, when \<open>s\<close> is not \<open>OK\<close>, the same kind of error
  with \<open>msg\<close> in front of its message. (The macro is declared outside the source; only the
  shape of the message is taken from its name.)
\<close>

fun prepend :: "string \<Rightarrow> Status \<Rightarrow> Status" where
  "prepend msg OK = OK"
| "prepend msg (Error c m) = Error c (msg @ '': '' @ m)"

fun code_of :: "Status \<Rightarrow> ErrorCode option" where
  "code_of OK = None"
| "code_of (Error c m) = Some c"

subsection \<open>Protobuf messages\<close>

text \<open>
  Modelled from the spec: the protobuf declarations (\<open>OpId\<close>, \<open>OperationPB\<close>, \<open>QuorumPB\<close>,
  \<open>QuorumPeerPB\<close>) and the header \<open>local_consensus.h\<close> are not part of the source. The
  spec's data model (section 3) gives an op-id as (term: integer, index: integer) and a
  quorum as a list of peers, each with an identity and a role, a sequence number and a
  locality flag. Of the roles only \<open>LEADER\<close> is named by the source.

  The integers are the 64-bit signed integers of the protobuf \<open>int64\<close> fields and of the
  member \<open>next_op_id_index_\<close>: a 64-bit word read by \<open>sint\<close>. Addition wraps around, as
  it does in the compiled code, so one more than the greatest value \<open>2^63 - 1\<close> is the
  least value \<open>- 2^63\<close>; comparisons are those of the signed values.
\<close>

type_synonym int64 = "64 word"

datatype Role = LEADER | OtherRole nat

record OpId =
  id_term :: int64
  id_index :: int64

record OperationPB =
  op_id :: "OpId option"     \<comment> \<open>the optional sub-message \<open>id\<close>\<close>
  has_commit :: bool
  payload :: nat

record QuorumPeerPB =
  permanent_uuid :: string
  has_role :: bool
  role :: Role

record QuorumPB =
  peers :: "QuorumPeerPB list"
  seqno :: int64
  local :: bool

record ConsensusMetadata =
  committed_quorum :: QuorumPB

record ConsensusBootstrapInfo =
  last_id :: OpId

text \<open>\<open>mutable_id()\<close> gives the sub-message, creating it with default fields when absent.\<close>

definition mutable_id :: "OperationPB \<Rightarrow> OpId" where
  "mutable_id op = (case op_id op of None \<Rightarrow> \<lparr>id_term = 0, id_index = 0\<rparr> | Some i \<Rightarrow> i)"

definition set_term :: "int64 \<Rightarrow> OperationPB \<Rightarrow> OperationPB" where
  "set_term t op = op\<lparr>op_id := Some ((mutable_id op)\<lparr>id_term := t\<rparr>)\<rparr>"

definition set_index :: "int64 \<Rightarrow> OperationPB \<Rightarrow> OperationPB" where
  "set_index n op = op\<lparr>op_id := Some ((mutable_id op)\<lparr>id_index := n\<rparr>)\<rparr>"

definition set_role :: "Role \<Rightarrow> QuorumPeerPB \<Rightarrow> QuorumPeerPB" where
  "set_role rl p = p\<lparr>has_role := True, role := rl\<rparr>"

subsection \<open>Consensus rounds\<close>

text \<open>
  A callback object is known by its identity. A round holds its two operations and its two
  completion callbacks; each may be absent (a null pointer).
\<close>

type_synonym callback = nat

record ConsensusRound =
  replicate_op :: "OperationPB option"
  commit_op :: "OperationPB option"
  replicate_callback :: "callback option"
  commit_callback :: "callback option"

text \<open>
  Modelled from the spec: \<open>ConsensusRound::release_commit_callback\<close> is declared in
  \<open>consensus.h\<close>, which is not part of the source. The spec (section 4.3 and the design
  notes): the extraction takes the round's callback by move, leaving the round's callback
  slot empty.
\<close>

definition release_commit_callback :: "ConsensusRound \<Rightarrow> callback option \<times> ConsensusRound" where
  "release_commit_callback r = (commit_callback r, r\<lparr>commit_callback := None\<rparr>)"

subsection \<open>The engine\<close>

text \<open>
  Modelled from the spec: the enumeration of engine states is declared in \<open>consensus.h\<close>.
  The source names \<open>kInitializing\<close> (the state the constructor sets, the spec's
  UNINITIALIZED), \<open>kConfiguring\<close> and \<open>kRunning\<close>; the spec orders them
  uninitialized, configuring, running.
\<close>

datatype State = kInitializing | kConfiguring | kRunning

fun state_rank :: "State \<Rightarrow> nat" where
  "state_rank kInitializing = 0"
| "state_rank kConfiguring = 1"
| "state_rank kRunning = 2"

text \<open>
  The actions of a method that another party can observe, in program order: taking and
  releasing \<open>lock_\<close>, the calls to the collaborators with their results, and the writes to
  the engine's fields and to the round.
\<close>

datatype event =
    EvLock
  | EvUnlock
  | EvVerifyQuorum QuorumPB Status
  | EvSetNextIndex int64
  | EvSetState State
  | EvSubmit QuorumPB Status
  | EvAssignIndex int64
  | EvReserve OperationPB Status
  | EvAsyncAppend OperationPB callback Status
  | EvReleaseCommitCallback
  | EvSetQuorum QuorumPB
  | EvFlush Status

record LocalConsensus =
  peer_uuid :: string
  cmeta :: ConsensusMetadata
  next_op_id_index :: int64
  state :: State
  events :: "event list"

datatype 'a outcome = Returns 'a | Fatal | Undefined

definition emit :: "event \<Rightarrow> LocalConsensus \<Rightarrow> LocalConsensus" where
  "emit e s = s\<lparr>events := events s @ [e]\<rparr>"

text \<open>
  The constructor: \<open>next_op_id_index_(-1)\<close>, \<open>state_(kInitializing)\<close>; the \<open>CHECK\<close> on
  \<open>cmeta_\<close> holds since the metadata object is given by value here.
\<close>

definition new_LocalConsensus :: "ConsensusMetadata \<Rightarrow> string \<Rightarrow> LocalConsensus" where
  "new_LocalConsensus cm uuid =
     \<lparr>peer_uuid = uuid, cmeta = cm, next_op_id_index = - 1, state = kInitializing, events = []\<rparr>"

text \<open>
  What the collaborators answer during one call. \<open>VerifyQuorum\<close> is a function of the
  quorum alone, and the methods that call it take it as their first argument \<open>verify\<close>.
\<close>

record env =
  reserve_result :: Status      \<comment> \<open>\<open>log_->Reserve\<close>\<close>
  append_result :: Status       \<comment> \<open>\<open>log_->AsyncAppend\<close>\<close>
  submit_result :: Status       \<comment> \<open>\<open>txn_factory_->SubmitConsensusChangeConfig\<close>\<close>
  flush_result :: Status        \<comment> \<open>\<open>cmeta_->Flush\<close>\<close>

subsection \<open>\<open>LocalConsensus::Start\<close>\<close>

definition Start ::
  "(QuorumPB \<Rightarrow> Status) \<Rightarrow> env \<Rightarrow> LocalConsensus \<Rightarrow> ConsensusBootstrapInfo
     \<Rightarrow> (Status \<times> LocalConsensus) outcome" where
  "Start verify ev s info =
     (if state s \<noteq> kInitializing then Fatal
      else
        let s1 = emit EvLock s;
            initial_quorum = committed_quorum (cmeta s1)
        in if \<not> local initial_quorum then Fatal
           else
             let v = verify initial_quorum;
                 s2 = emit (EvVerifyQuorum initial_quorum v) s1
             in if v \<noteq> OK
                then Returns (prepend ''Invalid quorum found in LocalConsensus::Start()'' v,
                              emit EvUnlock s2)
                else
                  let n = id_index (last_id info) + 1;
                      s3 = emit (EvSetNextIndex n) (s2\<lparr>next_op_id_index := n\<rparr>)
                  in case peers initial_quorum of
                       [] \<Rightarrow> Undefined
                     | p # ps \<Rightarrow>
                         let new_quorum = initial_quorum
                               \<lparr>peers := set_role LEADER p # ps,
                                seqno := seqno initial_quorum + 1\<rparr>;
                             s4 = emit (EvSetState kRunning) (s3\<lparr>state := kRunning\<rparr>);
                             st = submit_result ev;
                             s5 = emit (EvSubmit new_quorum st) s4
                         in Returns (st, emit EvUnlock s5))"

subsection \<open>\<open>LocalConsensus::Replicate\<close>\<close>

definition Replicate ::
  "bool \<Rightarrow> env \<Rightarrow> LocalConsensus \<Rightarrow> ConsensusRound
     \<Rightarrow> (Status \<times> LocalConsensus \<times> ConsensusRound) outcome" where
  "Replicate debug ev s r =
     (if debug \<and> state_rank (state s) < state_rank kConfiguring then Fatal
      else case replicate_op r of
        None \<Rightarrow> (if debug then Fatal else Undefined)
      | Some op0 \<Rightarrow>
          let op1 = set_term 0 op0;
              s1 = emit EvLock s;
              n = next_op_id_index s1;
              op2 = set_index n op1;
              r2 = r\<lparr>replicate_op := Some op2\<rparr>;
              s2 = emit (EvAssignIndex n) (s1\<lparr>next_op_id_index := n + 1\<rparr>);
              st = reserve_result ev;
              s3 = emit (EvReserve op2 st) s2;
              s4 = emit EvUnlock s3
          in if st \<noteq> OK then Returns (st, s4, r2)
             else (case replicate_callback r2 of
               None \<Rightarrow> Undefined
             | Some cb \<Rightarrow>
                 let st2 = append_result ev;
                     s5 = emit (EvAsyncAppend op2 cb st2) s4
                 in Returns (st2, s5, r2)))"

subsection \<open>\<open>LocalConsensus::role\<close>\<close>

definition LocalConsensus_role :: "LocalConsensus \<Rightarrow> (Role \<times> LocalConsensus) outcome" where
  "LocalConsensus_role s =
     (let s1 = emit EvLock s
      in case peers (committed_quorum (cmeta s1)) of
           [] \<Rightarrow> Undefined
         | p # ps \<Rightarrow> Returns (role p, emit EvUnlock s1))"

subsection \<open>\<open>LocalConsensus::Commit\<close>\<close>

definition Commit ::
  "bool \<Rightarrow> env \<Rightarrow> LocalConsensus \<Rightarrow> ConsensusRound
     \<Rightarrow> (Status \<times> LocalConsensus \<times> ConsensusRound) outcome" where
  "Commit debug ev s r =
     (case commit_op r of
        None \<Rightarrow> (if debug then Fatal else Undefined)
      | Some cop \<Rightarrow>
          if debug \<and> \<not> has_commit cop then Fatal
          else
            let (commit_clbk, r1) = release_commit_callback r;
                s1 = emit EvReleaseCommitCallback s;
                s2 = emit EvLock s1;
                st = reserve_result ev;
                s3 = emit (EvReserve cop st) s2;
                s4 = emit EvUnlock s3
            in if st \<noteq> OK then Returns (st, s4, r1)
               else (case commit_clbk of
                 None \<Rightarrow> Undefined
               | Some cb \<Rightarrow>
                   let st2 = append_result ev;
                       s5 = emit (EvAsyncAppend cop cb st2) s4
                   in Returns (st2, s5, r1)))"

subsection \<open>\<open>LocalConsensus::PersistQuorum\<close>\<close>

definition PersistQuorum ::
  "(QuorumPB \<Rightarrow> Status) \<Rightarrow> env \<Rightarrow> LocalConsensus \<Rightarrow> QuorumPB
     \<Rightarrow> (Status \<times> LocalConsensus) outcome" where
  "PersistQuorum verify ev s quorum =
     (let v = verify quorum;
          s1 = emit (EvVerifyQuorum quorum v) s
      in if v \<noteq> OK
         then Returns (prepend ''Invalid quorum passed to LocalConsensus::PersistQuorum()'' v, s1)
         else
           let s2 = emit EvLock s1
           in if \<not> sint (seqno (committed_quorum (cmeta s2))) < sint (seqno quorum) then Fatal
              else
                let s3 = emit (EvSetQuorum quorum)
                           (s2\<lparr>cmeta := (cmeta s2)\<lparr>committed_quorum := quorum\<rparr>\<rparr>);
                    st = flush_result ev;
                    s4 = emit (EvFlush st) s3
                in Returns (st, emit EvUnlock s4))"

subsection \<open>Quorum validation\<close>

text \<open>
  Modelled from the spec: \<open>VerifyQuorum\<close> is not part of the source. The spec (sections 4.5
  and 7): the quorum is validated structurally and the call fails with \<open>InvalidQuorum\<close> on
  a wrong peer count for the single-node engine, a false locality flag or a missing role.
\<close>

definition VerifyQuorum :: "QuorumPB \<Rightarrow> Status" where
  "VerifyQuorum q =
     (if length (peers q) \<noteq> 1 then Error InvalidQuorum ''wrong peer count''
      else if \<not> local q then Error InvalidQuorum ''quorum is not local''
      else if \<not> list_all has_role (peers q) then Error InvalidQuorum ''missing role''
      else OK)"

section \<open>Concurrent callers of \<open>Replicate\<close>\<close>

text \<open>
  Several threads run \<open>Replicate\<close> on one engine. A thread is at a program point of the
  method, with the value of its local \<open>op\<close> where it is live; every step of a thread is
  one statement of the method on the shared engine. \<open>lock_\<close> is the shared cell
  \<open>lock\<close>: a thread takes it only when it is free and spins otherwise. A failed check or
  an undefined dereference ends the whole process.
\<close>

datatype pc =
    Entry
  | AtLock OperationPB
  | AtAssign OperationPB
  | AtReserve OperationPB
  | AtUnlock OperationPB Status
  | AtAppend OperationPB
  | Done Status

record thread =
  pc :: pc
  t_round :: ConsensusRound
  t_env :: env

datatype process = Alive | Aborted | Crashed

record system =
  engine :: LocalConsensus
  lock :: "nat option"
  threads :: "thread list"
  process :: process

definition set_thread :: "nat \<Rightarrow> thread \<Rightarrow> system \<Rightarrow> system" where
  "set_thread t th sys = sys\<lparr>threads := (threads sys)[t := th]\<rparr>"

definition step :: "bool \<Rightarrow> nat \<Rightarrow> system \<Rightarrow> system" where
  "step debug t sys =
     (if process sys \<noteq> Alive \<or> length (threads sys) \<le> t then sys
      else
        let th = threads sys ! t; s = engine sys
        in case pc th of
          Entry \<Rightarrow>
            (if debug \<and> state_rank (state s) < state_rank kConfiguring
             then sys\<lparr>process := Aborted\<rparr>
             else case replicate_op (t_round th) of
               None \<Rightarrow> sys\<lparr>process := (if debug then Aborted else Crashed)\<rparr>
             | Some op0 \<Rightarrow> set_thread t (th\<lparr>pc := AtLock (set_term 0 op0)\<rparr>) sys)
        | AtLock op1 \<Rightarrow>
            (case lock sys of
               Some h \<Rightarrow> sys
             | None \<Rightarrow>
                 set_thread t (th\<lparr>pc := AtAssign op1\<rparr>)
                   (sys\<lparr>lock := Some t, engine := emit EvLock s\<rparr>))
        | AtAssign op1 \<Rightarrow>
            (let n = next_op_id_index s;
                 op2 = set_index n op1
             in set_thread t
                  (th\<lparr>pc := AtReserve op2,
                      t_round := (t_round th)\<lparr>replicate_op := Some op2\<rparr>\<rparr>)
                  (sys\<lparr>engine := emit (EvAssignIndex n) (s\<lparr>next_op_id_index := n + 1\<rparr>)\<rparr>))
        | AtReserve op2 \<Rightarrow>
            (let st = reserve_result (t_env th)
             in set_thread t (th\<lparr>pc := AtUnlock op2 st\<rparr>)
                  (sys\<lparr>engine := emit (EvReserve op2 st) s\<rparr>))
        | AtUnlock op2 st \<Rightarrow>
            set_thread t (th\<lparr>pc := (if st \<noteq> OK then Done st else AtAppend op2)\<rparr>)
              (sys\<lparr>lock := None, engine := emit EvUnlock s\<rparr>)
        | AtAppend op2 \<Rightarrow>
            (case replicate_callback (t_round th) of
               None \<Rightarrow> sys\<lparr>process := Crashed\<rparr>
             | Some cb \<Rightarrow>
                 (let st2 = append_result (t_env th)
                  in set_thread t (th\<lparr>pc := Done st2\<rparr>)
                       (sys\<lparr>engine := emit (EvAsyncAppend op2 cb st2) s\<rparr>)))
        | Done st \<Rightarrow> sys)"

text \<open>A schedule names the thread that takes each step.\<close>

fun run :: "bool \<Rightarrow> nat list \<Rightarrow> system \<Rightarrow> system" where
  "run debug [] sys = sys"
| "run debug (t # ts) sys = run debug ts (step debug t sys)"

definition new_thread :: "ConsensusRound \<Rightarrow> env \<Rightarrow> thread" where
  "new_thread r ev = \<lparr>pc = Entry, t_round = r, t_env = ev\<rparr>"

definition new_system :: "LocalConsensus \<Rightarrow> thread list \<Rightarrow> system" where
  "new_system s ths = \<lparr>engine = s, lock = None, threads = ths, process = Alive\<rparr>"

subsection \<open>What the trace of events says\<close>

text \<open>The indices in the order they were assigned.\<close>

fun assigned :: "event list \<Rightarrow> int64 list" where
  "assigned [] = []"
| "assigned (EvAssignIndex n # tr) = n # assigned tr"
| "assigned (e # tr) = assigned tr"

text \<open>The calls to \<open>Reserve\<close> in the order the log received them, with their results.\<close>

fun reserve_calls :: "event list \<Rightarrow> (OperationPB \<times> Status) list" where
  "reserve_calls [] = []"
| "reserve_calls (EvReserve op st # tr) = (op, st) # reserve_calls tr"
| "reserve_calls (e # tr) = reserve_calls tr"

definition index_of :: "OperationPB \<Rightarrow> int64" where
  "index_of op = id_index (mutable_id op)"

definition requested :: "event list \<Rightarrow> int64 list" where
  "requested tr = map (\<lambda>c. index_of (fst c)) (reserve_calls tr)"

text \<open>The indices whose log slot was reserved, in the order of reservation.\<close>

definition reserved :: "event list \<Rightarrow> int64 list" where
  "reserved tr = map (\<lambda>c. index_of (fst c)) (filter (\<lambda>c. snd c = OK) (reserve_calls tr))"

text \<open>No thread stands between its assignment and its call to \<open>Reserve\<close>.\<close>

definition settled :: "system \<Rightarrow> bool" where
  "settled sys = list_all (\<lambda>th. case pc th of AtReserve op \<Rightarrow> False | _ \<Rightarrow> True) (threads sys)"

subsection \<open>The ordering invariant\<close>

text \<open>
  \<open>consecutive n xs\<close>: the list is \<open>n, n + 1, n + 2, ...\<close> in 64-bit arithmetic. An engine is \<open>in_sequence\<close> from
  \<open>n0\<close> when the indices assigned so far are consecutive from \<open>n0\<close>, the counter stands
  right after them, and every one of them was passed to \<open>Reserve\<close>, in that order. This is
  so after \<open>Start\<close> and between any two calls of \<open>Replicate\<close>.
\<close>

fun consecutive :: "int64 \<Rightarrow> int64 list \<Rightarrow> bool" where
  "consecutive n [] = True"
| "consecutive n (x # xs) = (x = n \<and> consecutive (n + 1) xs)"

definition in_sequence :: "int64 \<Rightarrow> LocalConsensus \<Rightarrow> bool" where
  "in_sequence n0 s =
     (consecutive n0 (assigned (events s))
      \<and> next_op_id_index s = n0 + of_nat (length (assigned (events s)))
      \<and> requested (events s) = assigned (events s))"

text \<open>The program points between taking and releasing \<open>lock_\<close>.\<close>

fun holds_lock :: "pc \<Rightarrow> bool" where
  "holds_lock (AtAssign op) = True"
| "holds_lock (AtReserve op) = True"
| "holds_lock (AtUnlock op st) = True"
| "holds_lock p = False"

text \<open>
  What the trace looks like while the holder of the lock is at each of these points:
  before \<open>Reserve\<close> the index just assigned is the only one the log has not seen.
\<close>

fun in_step :: "event list \<Rightarrow> pc \<Rightarrow> bool" where
  "in_step tr (AtAssign op) = (requested tr = assigned tr)"
| "in_step tr (AtReserve op) = (assigned tr = requested tr @ [index_of op])"
| "in_step tr (AtUnlock op st) = (requested tr = assigned tr)"
| "in_step tr p = False"

definition mutex :: "system \<Rightarrow> bool" where
  "mutex sys =
     (\<forall>t < length (threads sys). holds_lock (pc (threads sys ! t)) \<longrightarrow> lock sys = Some t)"

definition counted :: "int64 \<Rightarrow> system \<Rightarrow> bool" where
  "counted n0 sys =
     (consecutive n0 (assigned (events (engine sys)))
      \<and> next_op_id_index (engine sys) = n0 + of_nat (length (assigned (events (engine sys)))))"

definition in_order :: "system \<Rightarrow> bool" where
  "in_order sys =
     (case lock sys of
        None \<Rightarrow> requested (events (engine sys)) = assigned (events (engine sys))
      | Some h \<Rightarrow> h < length (threads sys) \<and> in_step (events (engine sys)) (pc (threads sys ! h)))"

definition ordered :: "int64 \<Rightarrow> system \<Rightarrow> bool" where
  "ordered n0 sys = (mutex sys \<and> counted n0 sys \<and> in_order sys)"

text \<open>
  A call assigns at most one index: the indices assigned so far and the threads that
  have not passed their assignment add up to a constant.
\<close>

fun waiting :: "pc \<Rightarrow> bool" where
  "waiting Entry = True"
| "waiting (AtLock op) = True"
| "waiting (AtAssign op) = True"
| "waiting p = False"

definition budget :: "nat \<Rightarrow> system \<Rightarrow> bool" where
  "budget k sys =
     (length (assigned (events (engine sys)))
        + length (filter (\<lambda>th. waiting (pc th)) (threads sys)) = k)"

section \<open>Example engines, rounds and schedules\<close>

definition peerA :: QuorumPeerPB where
  "peerA = \<lparr>permanent_uuid = ''A'', has_role = True, role = OtherRole 0\<rparr>"

definition peerB :: QuorumPeerPB where
  "peerB = \<lparr>permanent_uuid = ''B'', has_role = True, role = OtherRole 0\<rparr>"

definition quorumA :: QuorumPB where
  "quorumA = \<lparr>peers = [peerA], seqno = 4, local = True\<rparr>"

definition quorum_remote :: QuorumPB where
  "quorum_remote = \<lparr>peers = [peerA], seqno = 4, local = False\<rparr>"

definition quorum_two :: QuorumPB where
  "quorum_two = \<lparr>peers = [peerB, peerA\<lparr>role := LEADER\<rparr>], seqno = 4, local = True\<rparr>"

definition quorumB :: QuorumPB where
  "quorumB = \<lparr>peers = [peerB], seqno = 4, local = True\<rparr>"

definition quorum_empty :: QuorumPB where
  "quorum_empty = \<lparr>peers = [], seqno = 5, local = True\<rparr>"

definition env_ok :: env where
  "env_ok = \<lparr>reserve_result = OK, append_result = OK, submit_result = OK, flush_result = OK\<rparr>"

definition env_log_closed :: env where
  "env_log_closed = \<lparr>reserve_result = Error StorageError ''log closed'', append_result = OK,
      submit_result = OK, flush_result = OK\<rparr>"

definition env_rejects :: env where
  "env_rejects = \<lparr>reserve_result = OK, append_result = OK,
      submit_result = Error StorageError ''rejected'', flush_result = OK\<rparr>"

definition engineA :: LocalConsensus where
  "engineA = new_LocalConsensus \<lparr>committed_quorum = quorumA\<rparr> ''A''"

text \<open>Node \<open>A\<close> with a committed quorum whose only peer is \<open>B\<close>.\<close>

definition engineAB :: LocalConsensus where
  "engineAB = new_LocalConsensus \<lparr>committed_quorum = quorumB\<rparr> ''A''"

text \<open>A running engine whose counter stands at the greatest value \<open>2^63 - 1\<close>.\<close>

definition engine_max :: LocalConsensus where
  "engine_max = \<lparr>peer_uuid = ''A'', cmeta = \<lparr>committed_quorum = quorumA\<rparr>,
      next_op_id_index = 9223372036854775807, state = kRunning, events = []\<rparr>"

definition info9 :: ConsensusBootstrapInfo where
  "info9 = \<lparr>last_id = \<lparr>id_term = 0, id_index = 9\<rparr>\<rparr>"

definition runningA :: LocalConsensus where
  "runningA = \<lparr>peer_uuid = ''A'', cmeta = \<lparr>committed_quorum = quorumA\<rparr>,
      next_op_id_index = 10, state = kRunning, events = []\<rparr>"

definition engine_two :: LocalConsensus where
  "engine_two = \<lparr>peer_uuid = ''A'', cmeta = \<lparr>committed_quorum = quorum_two\<rparr>,
      next_op_id_index = 10, state = kRunning, events = []\<rparr>"

definition op7 :: OperationPB where
  "op7 = \<lparr>op_id = None, has_commit = False, payload = 7\<rparr>"

definition op9 :: OperationPB where
  "op9 = \<lparr>op_id = None, has_commit = False, payload = 9\<rparr>"

definition op7_10 :: OperationPB where
  "op7_10 = \<lparr>op_id = Some \<lparr>id_term = 0, id_index = 10\<rparr>, has_commit = False, payload = 7\<rparr>"

definition op9_11 :: OperationPB where
  "op9_11 = \<lparr>op_id = Some \<lparr>id_term = 0, id_index = 11\<rparr>, has_commit = False, payload = 9\<rparr>"

definition commit8 :: OperationPB where
  "commit8 = \<lparr>op_id = Some \<lparr>id_term = 0, id_index = 10\<rparr>, has_commit = True, payload = 8\<rparr>"

definition round1 :: ConsensusRound where
  "round1 = \<lparr>replicate_op = Some op7, commit_op = None,
     replicate_callback = Some 1, commit_callback = Some 2\<rparr>"

definition round2 :: ConsensusRound where
  "round2 = \<lparr>replicate_op = Some op7_10, commit_op = Some commit8,
     replicate_callback = Some 1, commit_callback = Some 2\<rparr>"

definition round3 :: ConsensusRound where
  "round3 = \<lparr>replicate_op = Some op9, commit_op = None,
     replicate_callback = Some 3, commit_callback = Some 4\<rparr>"

text \<open>
  Two callers on a running engine whose next index is 10. In the schedule \<open>late_first\<close> the
  second caller enters first, the first caller wins the lock, and the second spins until
  the lock is free.
\<close>

definition two_callers :: system where
  "two_callers = new_system runningA [new_thread round1 env_ok, new_thread round3 env_ok]"

text \<open>
  The engine \<open>runningA\<close> after a call of \<open>Replicate\<close> that the log refused, and two
  callers that arrive afterwards.
\<close>

definition failedA :: LocalConsensus where
  "failedA = runningA\<lparr>next_op_id_index := 11,
     events := [EvLock, EvAssignIndex 10, EvReserve op7_10 (Error StorageError ''log closed''),
                EvUnlock]\<rparr>"

definition two_later :: system where
  "two_later = new_system failedA [new_thread round1 env_ok, new_thread round3 env_ok]"

definition two_at_max :: system where
  "two_at_max = new_system engine_max [new_thread round1 env_ok, new_thread round3 env_ok]"

definition late_first :: "nat list" where
  "late_first = [1, 0, 0, 1, 0, 1, 0, 0, 1, 0, 1, 1, 1, 1]"

section \<open>Basic facts\<close>

lemmas Start_unfold = Start_def Let_def emit_def set_role_def

lemmas Replicate_unfold = Replicate_def Let_def emit_def set_index_def set_term_def mutable_id_def

lemmas Commit_unfold = Commit_def Let_def emit_def release_commit_callback_def

lemmas PersistQuorum_unfold = PersistQuorum_def Let_def emit_def

lemmas examples =
  peerA_def peerB_def quorumA_def quorumB_def quorum_remote_def quorum_two_def quorum_empty_def
  engineAB_def
  env_ok_def env_log_closed_def env_rejects_def engineA_def info9_def runningA_def
  engine_two_def op7_def op9_def op7_10_def op9_11_def commit8_def round1_def round2_def
  round3_def new_LocalConsensus_def

lemma assigned_append: "assigned (xs @ ys) = assigned xs @ assigned ys"
  by (induction xs rule: assigned.induct) simp_all

lemma reserve_calls_append: "reserve_calls (xs @ ys) = reserve_calls xs @ reserve_calls ys"
  by (induction xs rule: reserve_calls.induct) simp_all

lemma requested_append: "requested (xs @ ys) = requested xs @ requested ys"
  by (simp add: requested_def reserve_calls_append)

lemma reserved_append: "reserved (xs @ ys) = reserved xs @ reserved ys"
  by (simp add: reserved_def reserve_calls_append)

lemma requested_single:
  "requested [EvReserve op st] = [index_of op]"
  "requested [EvLock] = []"
  "requested [EvUnlock] = []"
  "requested [EvAssignIndex n] = []"
  "requested [EvAsyncAppend op cb st] = []"
  by (simp_all add: requested_def)

lemma index_of_set_index: "index_of (set_index n op) = n"
  by (simp add: index_of_def set_index_def mutable_id_def)

lemma reserved_subseq: "subseq (reserved tr) (requested tr)"
  unfolding reserved_def requested_def
  by (rule subseq_map) simp

lemma reserved_subset: "set (reserved tr) \<subseteq> set (requested tr)"
  by (auto simp: reserved_def requested_def)

subsection \<open>Consecutive lists\<close>

lemma consecutive_snoc:
  "consecutive n (xs @ [x]) = (consecutive n xs \<and> x = n + of_nat (length xs))"
proof (induction xs arbitrary: n)
  case Nil
  show ?case by simp
next
  case (Cons a xs)
  have "consecutive (n + 1) (xs @ [x]) = (consecutive (n + 1) xs \<and> x = n + 1 + of_nat (length xs))"
    by (rule Cons.IH)
  then show ?case by (simp add: algebra_simps)
qed

lemma consecutive_nth: "consecutive n xs \<Longrightarrow> i < length xs \<Longrightarrow> xs ! i = n + of_nat i"
proof (induction xs arbitrary: n i)
  case Nil
  then show ?case by simp
next
  case (Cons a xs)
  then have a: "a = n" and c: "consecutive (n + 1) xs" by simp_all
  show ?case
  proof (cases i)
    case 0
    with a show ?thesis by simp
  next
    case (Suc j)
    with Cons.prems(2) have "j < length xs" by simp
    from Cons.IH [OF c this] Suc show ?thesis by simp
  qed
qed

lemma consecutive_map: "consecutive n xs \<Longrightarrow> xs = map (\<lambda>i. n + of_nat i) [0..<length xs]"
  by (rule nth_equalityI) (simp_all add: consecutive_nth)

subsection \<open>Signed values\<close>

lemma sint_bounds: "- (2 ^ 63) \<le> sint (n :: int64) \<and> sint n < 2 ^ 63"
  using sint_ge [of n] sint_lt [of n] by simp

lemma sint_succ:
  assumes "sint (n :: int64) < 2 ^ 63 - 1"
  shows "sint (n + 1) = sint n + 1"
proof -
  have lo: "- (2 ^ 63) \<le> sint n" using sint_bounds [of n] by simp
  have "sint (n + 1) = signed_take_bit 63 (sint n + 1)"
    by (simp add: sint_word_ariths)
  also have "\<dots> = sint n + 1"
    using assms lo by (simp add: signed_take_bit_int_eq_self)
  finally show ?thesis .
qed

lemma sint_add_of_nat:
  "sint (n :: int64) + int i < 2 ^ 63 \<Longrightarrow> sint (n + of_nat i) = sint n + int i"
proof (induction i)
  case 0
  show ?case by simp
next
  case (Suc i)
  then have a: "sint (n + of_nat i) = sint n + int i" by simp
  with Suc.prems have b: "sint (n + of_nat i) < 2 ^ 63 - 1" by simp
  have c: "n + of_nat (Suc i) = (n + of_nat i) + 1" by (simp add: algebra_simps)
  have "sint (n + of_nat (Suc i)) = sint (n + of_nat i) + 1"
    unfolding c by (rule sint_succ [OF b])
  with a show ?case by simp
qed

text \<open>
  A consecutive list that does not pass \<open>2^63 - 1\<close> reads as consecutive integers: it is
  strictly increasing and has no duplicates.
\<close>

lemma consecutive_sint:
  assumes "consecutive n xs" and "sint n + int (length xs) \<le> 2 ^ 63"
  shows "map sint xs = map (\<lambda>i. sint n + int i) [0..<length xs]"
proof (rule nth_equalityI)
  show "length (map sint xs) = length (map (\<lambda>i. sint n + int i) [0..<length xs])" by simp
next
  fix i assume "i < length (map sint xs)"
  then have i: "i < length xs" by simp
  with assms(2) have "sint n + int i < 2 ^ 63" by simp
  then have "sint (n + of_nat i) = sint n + int i" by (rule sint_add_of_nat)
  with consecutive_nth [OF assms(1) i] i
  show "map sint xs ! i = map (\<lambda>i. sint n + int i) [0..<length xs] ! i" by simp
qed

lemma sorted_from: "sorted_wrt (<) (map (\<lambda>i. a + int i) [0..<k])"
  by (simp add: sorted_wrt_map sorted_wrt_iff_nth_less)

lemma consecutive_sorted:
  assumes "consecutive n xs" and "sint n + int (length xs) \<le> 2 ^ 63"
  shows "sorted_wrt (<) (map sint xs)"
  unfolding consecutive_sint [OF assms] by (rule sorted_from)

lemma consecutive_distinct:
  assumes "consecutive n xs" and "sint n + int (length xs) \<le> 2 ^ 63"
  shows "distinct xs"
proof -
  from consecutive_sorted [OF assms] have "distinct (map sint xs)"
    by (simp add: strict_sorted_iff)
  then show ?thesis by (simp add: distinct_map)
qed

lemma count_update:
  "t < length xs \<Longrightarrow>
     length (filter P (xs[t := x])) + (if P (xs ! t) then 1 else 0) =
     length (filter P xs) + (if P x then 1 else 0)"
proof (induction xs arbitrary: t)
  case Nil
  then show ?case by simp
next
  case (Cons a xs)
  show ?case
  proof (cases t)
    case 0
    then show ?thesis by simp
  next
    case (Suc j)
    with Cons.prems have "j < length xs" by simp
    from Cons.IH [OF this] Suc show ?thesis by simp
  qed
qed

section \<open>One caller at a time\<close>

subsection \<open>\<open>Replicate\<close>\<close>

lemma Replicate_runningA:
  "Replicate True env_ok runningA round1 =
     Returns (OK,
       runningA\<lparr>next_op_id_index := 11,
         events := [EvLock, EvAssignIndex 10, EvReserve op7_10 OK, EvUnlock,
                    EvAsyncAppend op7_10 1 OK]\<rparr>,
       round1\<lparr>replicate_op := Some op7_10\<rparr>)"
  by (simp add: Replicate_unfold examples)

text \<open>
  C2: every call of \<open>Replicate\<close> that returns \<open>OK\<close> has given the round's REPLICATE
  operation the op-id with term 0 and with the index that \<open>next_op_id_index\<close> held before
  the call, and has raised \<open>next_op_id_index\<close> by exactly one (in 64-bit arithmetic: by one
  as an integer whenever the counter stood below \<open>2^63 - 1\<close>); the assignment and the call
  to \<open>Reserve\<close> stand between taking and releasing the lock, the asynchronous append after
  the release.
\<close>

theorem Replicate_assigns_next_index:
  assumes "Replicate debug ev s r = Returns (OK, s', r')"
  shows "\<exists>op cb. replicate_op r' = Some op
           \<and> op_id op = Some \<lparr>id_term = 0, id_index = next_op_id_index s\<rparr>
           \<and> next_op_id_index s' = next_op_id_index s + 1
           \<and> (sint (next_op_id_index s) < 2 ^ 63 - 1 \<longrightarrow>
                sint (next_op_id_index s') = sint (next_op_id_index s) + 1)
           \<and> replicate_callback r = Some cb
           \<and> events s' = events s @
                [EvLock, EvAssignIndex (next_op_id_index s), EvReserve op OK, EvUnlock,
                 EvAsyncAppend op cb OK]"
  using assms
  by (auto simp: Replicate_unfold sint_succ split: if_splits option.splits)

theorem Replicate_assigns_next_index_witness:
  "Replicate True env_ok runningA round1 =
     Returns (OK,
       runningA\<lparr>next_op_id_index := 11,
         events := [EvLock, EvAssignIndex 10, EvReserve op7_10 OK, EvUnlock,
                    EvAsyncAppend op7_10 1 OK]\<rparr>,
       round1\<lparr>replicate_op := Some op7_10\<rparr>)
   \<and> next_op_id_index runningA = 10
   \<and> sint (next_op_id_index runningA) = 10
   \<and> op_id op7_10 = Some \<lparr>id_term = 0, id_index = 10\<rparr>"
  using Replicate_assigns_next_index [OF Replicate_runningA] Replicate_runningA
  by (simp add: runningA_def op7_10_def)

text \<open>
  At the greatest value the counter wraps: the call returns \<open>OK\<close>, the operation carries
  \<open>2^63 - 1\<close> and the counter stands at \<open>- 2^63\<close>.
\<close>

lemma Replicate_at_max:
  "Replicate True env_ok engine_max round1 =
     Returns (OK,
       engine_max\<lparr>next_op_id_index := - 9223372036854775808,
         events := [EvLock, EvAssignIndex 9223372036854775807,
                    EvReserve (op7\<lparr>op_id := Some \<lparr>id_term = 0, id_index = 9223372036854775807\<rparr>\<rparr>) OK,
                    EvUnlock,
                    EvAsyncAppend (op7\<lparr>op_id := Some \<lparr>id_term = 0, id_index = 9223372036854775807\<rparr>\<rparr>) 1 OK]\<rparr>,
       round1\<lparr>replicate_op :=
         Some (op7\<lparr>op_id := Some \<lparr>id_term = 0, id_index = 9223372036854775807\<rparr>\<rparr>)\<rparr>)"
  by (simp add: Replicate_unfold engine_max_def examples)

subsection \<open>\<open>PersistQuorum\<close>\<close>

text \<open>
  C3: a call of \<open>PersistQuorum\<close> with a candidate whose sequence number is at most the
  committed one (as signed 64-bit values) never succeeds: it aborts fatally, or it returns the validation error
  (not \<open>OK\<close>) and leaves the engine as it was but for the recorded validation. Whenever a
  call returns and the committed quorum has changed, the new committed quorum is the
  candidate and its sequence number is strictly greater than the old one.
\<close>

theorem PersistQuorum_seqno_monotonic:
  "(sint (seqno q) \<le> sint (seqno (committed_quorum (cmeta s))) \<longrightarrow>
      PersistQuorum verify ev s q = Fatal \<or>
      (\<exists>st. st \<noteq> OK \<and> code_of st = code_of (verify q) \<and>
         PersistQuorum verify ev s q = Returns (st, emit (EvVerifyQuorum q (verify q)) s)))
   \<and> (\<forall>st s'. PersistQuorum verify ev s q = Returns (st, s') \<longrightarrow>
         committed_quorum (cmeta s') = committed_quorum (cmeta s) \<or>
         (committed_quorum (cmeta s') = q \<and>
          sint (seqno (committed_quorum (cmeta s))) < sint (seqno (committed_quorum (cmeta s')))))"
  by (cases "verify q") (auto simp: PersistQuorum_unfold)

theorem PersistQuorum_seqno_monotonic_witness:
  "sint (seqno (committed_quorum (cmeta runningA))) = 4
   \<and> PersistQuorum VerifyQuorum env_ok runningA (quorumA\<lparr>seqno := 4\<rparr>) = Fatal
   \<and> PersistQuorum VerifyQuorum env_ok runningA (quorum_empty\<lparr>seqno := 3\<rparr>) =
       Returns (Error InvalidQuorum
          ''Invalid quorum passed to LocalConsensus::PersistQuorum(): wrong peer count'',
          emit (EvVerifyQuorum (quorum_empty\<lparr>seqno := 3\<rparr>)
                  (Error InvalidQuorum ''wrong peer count'')) runningA)
   \<and> PersistQuorum VerifyQuorum env_ok runningA (quorumA\<lparr>seqno := 5\<rparr>) =
       Returns (OK, runningA\<lparr>cmeta := \<lparr>committed_quorum = quorumA\<lparr>seqno := 5\<rparr>\<rparr>,
          events := [EvVerifyQuorum (quorumA\<lparr>seqno := 5\<rparr>) OK, EvLock,
                     EvSetQuorum (quorumA\<lparr>seqno := 5\<rparr>), EvFlush OK, EvUnlock]\<rparr>)"
  using PersistQuorum_seqno_monotonic [of "quorumA\<lparr>seqno := 4\<rparr>" runningA VerifyQuorum env_ok]
    PersistQuorum_seqno_monotonic [of "quorum_empty\<lparr>seqno := 3\<rparr>" runningA VerifyQuorum env_ok]
    PersistQuorum_seqno_monotonic [of "quorumA\<lparr>seqno := 5\<rparr>" runningA VerifyQuorum env_ok]
  by (simp add: PersistQuorum_unfold VerifyQuorum_def examples)

text \<open>
  C7: when validation answers \<open>InvalidQuorum\<close> for the candidate, \<open>PersistQuorum\<close> returns
  \<open>InvalidQuorum\<close> and the engine is as before but for the recorded validation: the
  committed quorum is unchanged and the lock was never taken. In every call that returns,
  the validation is the first action; the lock is taken after it, and only when the
  candidate is valid.
\<close>

theorem PersistQuorum_invalid_quorum:
  "(verify q = Error InvalidQuorum m \<longrightarrow>
      PersistQuorum verify ev s q =
        Returns (Error InvalidQuorum
           (''Invalid quorum passed to LocalConsensus::PersistQuorum()'' @ '': '' @ m),
           s\<lparr>events := events s @ [EvVerifyQuorum q (verify q)]\<rparr>))
   \<and> (\<forall>st s'. PersistQuorum verify ev s q = Returns (st, s') \<longrightarrow>
         (\<exists>rest. events s' = events s @ EvVerifyQuorum q (verify q) # rest
            \<and> (if verify q \<noteq> OK then rest = [] \<and> cmeta s' = cmeta s
                else rest = [EvLock, EvSetQuorum q, EvFlush st, EvUnlock])))"
  by (auto simp: PersistQuorum_unfold split: if_splits)

theorem PersistQuorum_invalid_quorum_witness:
  "peers quorum_empty = []
   \<and> VerifyQuorum quorum_empty = Error InvalidQuorum ''wrong peer count''
   \<and> PersistQuorum VerifyQuorum env_ok runningA quorum_empty =
        Returns (Error InvalidQuorum
           ''Invalid quorum passed to LocalConsensus::PersistQuorum(): wrong peer count'',
           runningA\<lparr>events := [EvVerifyQuorum quorum_empty (Error InvalidQuorum ''wrong peer count'')]\<rparr>)
   \<and> committed_quorum (cmeta (runningA\<lparr>events :=
         [EvVerifyQuorum quorum_empty (Error InvalidQuorum ''wrong peer count'')]\<rparr>)) = quorumA"
proof -
  have v: "VerifyQuorum quorum_empty = Error InvalidQuorum ''wrong peer count''"
    by (simp add: VerifyQuorum_def quorum_empty_def)
  from PersistQuorum_invalid_quorum
         [of VerifyQuorum quorum_empty "''wrong peer count''" env_ok runningA] v
  show ?thesis by (simp add: runningA_def quorum_empty_def)
qed

subsection \<open>\<open>Start\<close>\<close>

text \<open>
  C4, as the source has it: on an engine in its initial state, \<open>Start\<close> aborts fatally when
  the committed quorum's locality flag is false (the \<open>CHECK\<close> stands before the
  validation); when the flag is true and validation fails, \<open>Start\<close> returns the validation
  error, of the same kind and with the prefix of \<open>Start\<close>, and leaves the state and the
  counter as they were.
\<close>

theorem Start_malformed_quorum:
  assumes "state s = kInitializing"
  shows "(\<not> local (committed_quorum (cmeta s)) \<longrightarrow> Start verify ev s info = Fatal)
    \<and> (local (committed_quorum (cmeta s)) \<and> verify (committed_quorum (cmeta s)) = Error c m \<longrightarrow>
         Start verify ev s info =
           Returns (Error c (''Invalid quorum found in LocalConsensus::Start()'' @ '': '' @ m),
             s\<lparr>events := events s @
                 [EvLock, EvVerifyQuorum (committed_quorum (cmeta s)) (Error c m), EvUnlock]\<rparr>))"
  using assms by (simp add: Start_unfold)

theorem Start_malformed_quorum_witness:
  "state (new_LocalConsensus \<lparr>committed_quorum = quorum_two\<rparr> ''A'') = kInitializing
   \<and> local quorum_two
   \<and> VerifyQuorum quorum_two = Error InvalidQuorum ''wrong peer count''
   \<and> Start VerifyQuorum env_ok (new_LocalConsensus \<lparr>committed_quorum = quorum_two\<rparr> ''A'') info9 =
       Returns (Error InvalidQuorum
          ''Invalid quorum found in LocalConsensus::Start(): wrong peer count'',
         (new_LocalConsensus \<lparr>committed_quorum = quorum_two\<rparr> ''A'')
           \<lparr>events := [EvLock, EvVerifyQuorum quorum_two (Error InvalidQuorum ''wrong peer count''),
                       EvUnlock]\<rparr>)"
proof -
  let ?s = "new_LocalConsensus \<lparr>committed_quorum = quorum_two\<rparr> ''A''"
  have a: "state ?s = kInitializing" by (simp add: new_LocalConsensus_def)
  have b: "local (committed_quorum (cmeta ?s))"
    by (simp add: new_LocalConsensus_def quorum_two_def)
  have v: "VerifyQuorum (committed_quorum (cmeta ?s)) = Error InvalidQuorum ''wrong peer count''"
    by (simp add: new_LocalConsensus_def quorum_two_def VerifyQuorum_def)
  from Start_malformed_quorum [OF a, where verify = VerifyQuorum and c = InvalidQuorum
      and m = "''wrong peer count''" and ev = env_ok and info = info9] b v
  show ?thesis by (simp add: new_LocalConsensus_def)
qed

text \<open>
  C4 as claimed fails: with a committed quorum whose locality flag is false, which
  validation finds malformed, \<open>Start\<close> on an engine in its initial state does not return
  \<open>InvalidQuorum\<close>; it aborts fatally.
\<close>

theorem Start_not_local_counterexample:
  "state (new_LocalConsensus \<lparr>committed_quorum = quorum_remote\<rparr> ''A'') = kInitializing
   \<and> \<not> local quorum_remote
   \<and> VerifyQuorum quorum_remote = Error InvalidQuorum ''quorum is not local''
   \<and> Start VerifyQuorum env_ok (new_LocalConsensus \<lparr>committed_quorum = quorum_remote\<rparr> ''A'') info9
       = Fatal"
  by (simp add: Start_unfold VerifyQuorum_def quorum_remote_def new_LocalConsensus_def peerA_def)

lemma Start_engineA:
  "Start VerifyQuorum env_ok engineA info9 =
     Returns (OK, engineA\<lparr>next_op_id_index := 10, state := kRunning,
       events := [EvLock, EvVerifyQuorum quorumA OK, EvSetNextIndex 10, EvSetState kRunning,
         EvSubmit \<lparr>peers = [\<lparr>permanent_uuid = ''A'', has_role = True, role = LEADER\<rparr>],
                    seqno = 5, local = True\<rparr> OK,
         EvUnlock]\<rparr>)"
  by (simp add: Start_unfold VerifyQuorum_def examples)

text \<open>
  C5, as the source has it: every call of \<open>Start\<close> that returns \<open>OK\<close> started from the
  initial state with a local committed quorum that validation accepted; it has set
  \<open>next_op_id_index\<close> to the last known index plus one and the state to \<open>kRunning\<close>, the
  state being set before the submission; and the quorum submitted to the transaction
  factory is the committed quorum with the role of the first peer of its peer list set to
  \<open>LEADER\<close> and the sequence number raised by one, and nothing else changed. The first
  peer is taken whatever its identity: \<open>peer_uuid\<close> is not consulted. Both additions are
  64-bit: they give the integer successor whenever the value stood below \<open>2^63 - 1\<close>.
\<close>

theorem Start_success:
  assumes "Start verify ev s info = Returns (OK, s')"
  shows "state s = kInitializing
    \<and> local (committed_quorum (cmeta s))
    \<and> verify (committed_quorum (cmeta s)) = OK
    \<and> next_op_id_index s' = id_index (last_id info) + 1
    \<and> (sint (id_index (last_id info)) < 2 ^ 63 - 1 \<longrightarrow>
         sint (next_op_id_index s') = sint (id_index (last_id info)) + 1)
    \<and> state s' = kRunning
    \<and> cmeta s' = cmeta s
    \<and> (\<exists>p ps new_quorum.
          peers (committed_quorum (cmeta s)) = p # ps
        \<and> new_quorum = (committed_quorum (cmeta s))
             \<lparr>peers := p\<lparr>has_role := True, role := LEADER\<rparr> # ps,
              seqno := seqno (committed_quorum (cmeta s)) + 1\<rparr>
        \<and> (sint (seqno (committed_quorum (cmeta s))) < 2 ^ 63 - 1 \<longrightarrow>
             sint (seqno new_quorum) = sint (seqno (committed_quorum (cmeta s))) + 1)
        \<and> events s' = events s @
             [EvLock, EvVerifyQuorum (committed_quorum (cmeta s)) OK,
              EvSetNextIndex (id_index (last_id info) + 1), EvSetState kRunning,
              EvSubmit new_quorum OK, EvUnlock])"
  using assms
  by (cases "verify (committed_quorum (cmeta s))")
     (auto simp: Start_unfold sint_succ split: if_splits list.splits)

theorem Start_success_witness:
  "Start VerifyQuorum env_ok engineA info9 =
     Returns (OK, engineA\<lparr>next_op_id_index := 10, state := kRunning,
       events := [EvLock, EvVerifyQuorum quorumA OK, EvSetNextIndex 10, EvSetState kRunning,
         EvSubmit \<lparr>peers = [\<lparr>permanent_uuid = ''A'', has_role = True, role = LEADER\<rparr>],
                    seqno = 5, local = True\<rparr> OK,
         EvUnlock]\<rparr>)
   \<and> state engineA = kInitializing
   \<and> committed_quorum (cmeta engineA) =
        \<lparr>peers = [\<lparr>permanent_uuid = ''A'', has_role = True, role = OtherRole 0\<rparr>],
          seqno = 4, local = True\<rparr>
   \<and> id_index (last_id info9) = 9
   \<and> sint (id_index (last_id info9)) = 9
   \<and> sint (seqno (committed_quorum (cmeta engineA))) = 4"
  using Start_success [OF Start_engineA] Start_engineA by (simp add: examples)

text \<open>
  C5 as claimed fails: on node \<open>A\<close>, whose committed quorum is local, is accepted by
  validation and has the single peer \<open>B\<close>, \<open>Start\<close> returns \<open>OK\<close> and the quorum it submits
  makes \<open>B\<close> the \<open>LEADER\<close>; the node \<open>A\<close> has no entry in it and so no role.
\<close>

theorem Start_other_node_counterexample:
  "state engineAB = kInitializing
   \<and> peer_uuid engineAB = ''A''
   \<and> local (committed_quorum (cmeta engineAB))
   \<and> VerifyQuorum (committed_quorum (cmeta engineAB)) = OK
   \<and> map permanent_uuid (peers (committed_quorum (cmeta engineAB))) = [''B'']
   \<and> Start VerifyQuorum env_ok engineAB info9 =
     Returns (OK, engineAB\<lparr>next_op_id_index := 10, state := kRunning,
       events := [EvLock, EvVerifyQuorum quorumB OK, EvSetNextIndex 10, EvSetState kRunning,
         EvSubmit \<lparr>peers = [\<lparr>permanent_uuid = ''B'', has_role = True, role = LEADER\<rparr>],
                    seqno = 5, local = True\<rparr> OK,
         EvUnlock]\<rparr>)
   \<and> filter (\<lambda>p. permanent_uuid p = peer_uuid engineAB)
        [\<lparr>permanent_uuid = ''B'', has_role = True, role = LEADER\<rparr>] = []"
  by (simp add: Start_unfold VerifyQuorum_def examples)

text \<open>
  C10: when the transaction factory rejects the submission, \<open>Start\<close> returns the factory's
  error, yet the state is \<open>kRunning\<close> and \<open>next_op_id_index\<close> keeps its new value (the last
  known index plus one, in 64-bit arithmetic); on the
  engine so left, \<open>Replicate\<close> and \<open>Commit\<close> on a well-formed round go through, in a debug
  build as well.
\<close>

theorem Start_submit_rejected:
  assumes "state s = kInitializing"
    and "local (committed_quorum (cmeta s))"
    and "verify (committed_quorum (cmeta s)) = OK"
    and "peers (committed_quorum (cmeta s)) = p # ps"
    and "submit_result ev \<noteq> OK"
  shows "\<exists>s'. Start verify ev s info = Returns (submit_result ev, s')
     \<and> state s' = kRunning
     \<and> next_op_id_index s' = id_index (last_id info) + 1
     \<and> cmeta s' = cmeta s
     \<and> (\<forall>debug ev2 r op cb.
           replicate_op r = Some op \<and> replicate_callback r = Some cb
           \<and> reserve_result ev2 = OK \<and> append_result ev2 = OK \<longrightarrow>
           (\<exists>s'' r'. Replicate debug ev2 s' r = Returns (OK, s'', r')
              \<and> replicate_op r' = Some (set_index (id_index (last_id info) + 1) (set_term 0 op))))
     \<and> (\<forall>debug ev2 r cop cb.
           commit_op r = Some cop \<and> has_commit cop \<and> commit_callback r = Some cb
           \<and> reserve_result ev2 = OK \<and> append_result ev2 = OK \<longrightarrow>
           (\<exists>s'' r'. Commit debug ev2 s' r = Returns (OK, s'', r')))"
  using assms
  by (auto simp: Start_def Replicate_def Commit_def Let_def emit_def release_commit_callback_def)

theorem Start_submit_rejected_witness:
  "state engineA = kInitializing
   \<and> VerifyQuorum (committed_quorum (cmeta engineA)) = OK
   \<and> submit_result env_rejects = Error StorageError ''rejected''
   \<and> Start VerifyQuorum env_rejects engineA info9 =
     Returns (Error StorageError ''rejected'',
       engineA\<lparr>next_op_id_index := 10, state := kRunning,
       events := [EvLock, EvVerifyQuorum quorumA OK, EvSetNextIndex 10, EvSetState kRunning,
         EvSubmit \<lparr>peers = [\<lparr>permanent_uuid = ''A'', has_role = True, role = LEADER\<rparr>],
                    seqno = 5, local = True\<rparr> (Error StorageError ''rejected''),
         EvUnlock]\<rparr>)"
proof -
  have a: "state engineA = kInitializing" by (simp add: examples)
  have b: "local (committed_quorum (cmeta engineA))" by (simp add: examples)
  have c: "VerifyQuorum (committed_quorum (cmeta engineA)) = OK"
    by (simp add: VerifyQuorum_def examples)
  have d: "peers (committed_quorum (cmeta engineA)) = peerA # []" by (simp add: examples)
  have e: "submit_result env_rejects \<noteq> OK" by (simp add: examples)
  have f: "Start VerifyQuorum env_rejects engineA info9 =
     Returns (Error StorageError ''rejected'',
       engineA\<lparr>next_op_id_index := 10, state := kRunning,
       events := [EvLock, EvVerifyQuorum quorumA OK, EvSetNextIndex 10, EvSetState kRunning,
         EvSubmit \<lparr>peers = [\<lparr>permanent_uuid = ''A'', has_role = True, role = LEADER\<rparr>],
                    seqno = 5, local = True\<rparr> (Error StorageError ''rejected''),
         EvUnlock]\<rparr>)"
    by (simp add: Start_unfold VerifyQuorum_def examples)
  from Start_submit_rejected [where verify = VerifyQuorum and s = engineA and ev = env_rejects
      and info = info9, OF a b c d e] a c f
  show ?thesis by (simp add: env_rejects_def)
qed

subsection \<open>\<open>Commit\<close>\<close>

lemma Commit_round2_ok:
  "Commit True env_ok runningA round2 =
     Returns (OK,
       runningA\<lparr>events := [EvReleaseCommitCallback, EvLock, EvReserve commit8 OK, EvUnlock,
          EvAsyncAppend commit8 2 OK]\<rparr>,
       round2\<lparr>commit_callback := None\<rparr>)"
  by (simp add: Commit_unfold examples)

lemma Commit_round2_closed:
  "Commit True env_log_closed runningA round2 =
     Returns (Error StorageError ''log closed'',
       runningA\<lparr>events := [EvReleaseCommitCallback, EvLock,
          EvReserve commit8 (Error StorageError ''log closed''), EvUnlock]\<rparr>,
       round2\<lparr>commit_callback := None\<rparr>)"
  by (simp add: Commit_unfold examples)

text \<open>
  C6: in every call of \<open>Commit\<close> on a round whose commit operation is present, the
  release of the round's commit callback is the first action, before the lock and before
  \<open>Reserve\<close> and \<open>AsyncAppend\<close>; and whenever the call returns, with \<open>OK\<close> or with the error
  of \<open>Reserve\<close> or of \<open>AsyncAppend\<close>, the round it leaves is the round it was given with the
  commit callback slot empty.
\<close>

theorem Commit_releases_callback:
  assumes "commit_op r = Some cop"
    and "Commit debug ev s r = Returns (st, s', r')"
  shows "commit_callback r' = None
    \<and> r' = r\<lparr>commit_callback := None\<rparr>
    \<and> (\<exists>rest. events s' = events s @ EvReleaseCommitCallback # EvLock # rest
          \<and> (if reserve_result ev \<noteq> OK
              then st = reserve_result ev \<and> rest = [EvReserve cop st, EvUnlock]
              else \<exists>cb. commit_callback r = Some cb \<and> st = append_result ev
                     \<and> rest = [EvReserve cop OK, EvUnlock, EvAsyncAppend cop cb st]))"
  using assms
  by (auto simp: Commit_unfold split: if_splits option.splits)

theorem Commit_releases_callback_witness:
  "commit_op round2 = Some commit8
   \<and> commit_callback round2 = Some 2
   \<and> Commit True env_ok runningA round2 =
     Returns (OK,
       runningA\<lparr>events := [EvReleaseCommitCallback, EvLock, EvReserve commit8 OK, EvUnlock,
          EvAsyncAppend commit8 2 OK]\<rparr>,
       round2\<lparr>commit_callback := None\<rparr>)
   \<and> Commit True env_log_closed runningA round2 =
     Returns (Error StorageError ''log closed'',
       runningA\<lparr>events := [EvReleaseCommitCallback, EvLock,
          EvReserve commit8 (Error StorageError ''log closed''), EvUnlock]\<rparr>,
       round2\<lparr>commit_callback := None\<rparr>)
   \<and> commit_callback (round2\<lparr>commit_callback := None\<rparr>) = None"
proof -
  have c: "commit_op round2 = Some commit8" by (simp add: round2_def)
  have d: "commit_callback round2 = Some 2" by (simp add: round2_def)
  from Commit_releases_callback [OF c Commit_round2_ok]
       Commit_releases_callback [OF c Commit_round2_closed]
  show ?thesis using c d Commit_round2_ok Commit_round2_closed by simp
qed

subsection \<open>\<open>role\<close>\<close>

text \<open>
  C9: \<open>role\<close> returns the role of the first peer of the committed quorum, whatever this
  node's own identity \<open>peer_uuid\<close> is; so when the first peer is another node, the role
  returned is that node's.
\<close>

theorem role_is_first_peers_role:
  assumes "peers (committed_quorum (cmeta s)) = p # ps"
  shows "LocalConsensus_role s = Returns (role p, s\<lparr>events := events s @ [EvLock, EvUnlock]\<rparr>)
    \<and> (\<forall>uuid. LocalConsensus_role (s\<lparr>peer_uuid := uuid\<rparr>) =
          Returns (role p, s\<lparr>peer_uuid := uuid, events := events s @ [EvLock, EvUnlock]\<rparr>))"
  using assms by (simp add: LocalConsensus_role_def Let_def emit_def)

theorem role_is_first_peers_role_witness:
  "peers (committed_quorum (cmeta engine_two)) = [peerB, peerA\<lparr>role := LEADER\<rparr>]
   \<and> permanent_uuid peerB = ''B'' \<and> role peerB = OtherRole 0
   \<and> peer_uuid engine_two = ''A''
   \<and> permanent_uuid (peerA\<lparr>role := LEADER\<rparr>) = ''A'' \<and> role (peerA\<lparr>role := LEADER\<rparr>) = LEADER
   \<and> LocalConsensus_role engine_two =
        Returns (OtherRole 0, engine_two\<lparr>events := [EvLock, EvUnlock]\<rparr>)"
proof -
  have p: "peers (committed_quorum (cmeta engine_two)) = peerB # [peerA\<lparr>role := LEADER\<rparr>]"
    by (simp add: engine_two_def quorum_two_def)
  from role_is_first_peers_role [OF p] p
  show ?thesis by (simp add: engine_two_def peerB_def peerA_def)
qed


section \<open>Concurrent callers\<close>

subsection \<open>One thread alone runs the method\<close>

text \<open>
  A single thread that takes six steps on a free lock ends where the method \<open>Replicate\<close>
  ends: with the same status, engine and round when the method returns, with the process
  aborted or crashed when the method aborts or is undefined.
\<close>

lemma solo_run_Replicate:
  "(case Replicate debug ev s r of
      Returns (st, s', r') \<Rightarrow>
        run debug [0, 0, 0, 0, 0, 0] (new_system s [new_thread r ev]) =
          \<lparr>engine = s', lock = None, threads = [\<lparr>pc = Done st, t_round = r', t_env = ev\<rparr>],
            process = Alive\<rparr>
    | Fatal \<Rightarrow> process (run debug [0, 0, 0, 0, 0, 0] (new_system s [new_thread r ev])) = Aborted
    | Undefined \<Rightarrow>
        process (run debug [0, 0, 0, 0, 0, 0] (new_system s [new_thread r ev])) = Crashed)"
  by (simp add: Replicate_def new_system_def new_thread_def step_def Let_def set_thread_def
        split: option.splits)

subsection \<open>The invariant is kept by every step\<close>

lemma mutexD:
  "mutex sys \<Longrightarrow> t < length (threads sys) \<Longrightarrow> holds_lock (pc (threads sys ! t)) \<Longrightarrow> lock sys = Some t"
  by (simp add: mutex_def)

lemma mutex_other:
  assumes "mutex sys" and "lock sys \<noteq> Some u" and "u < length (threads sys)"
  shows "\<not> holds_lock (pc (threads sys ! u))"
  using assms by (auto simp: mutex_def)

text \<open>A thread that does not hold the lock and moves to a point outside the critical section.\<close>

lemma outside_move:
  assumes ord: "ordered n0 sys" and t: "t < length (threads sys)"
    and old: "\<not> holds_lock (pc (threads sys ! t))" and new: "\<not> holds_lock (pc th)"
    and thr: "threads sys' = (threads sys)[t := th]" and lk: "lock sys' = lock sys"
    and tr: "assigned (events (engine sys')) = assigned (events (engine sys))"
            "requested (events (engine sys')) = requested (events (engine sys))"
            "next_op_id_index (engine sys') = next_op_id_index (engine sys)"
  shows "ordered n0 sys'"
proof -
  from ord have m: "mutex sys" and c: "counted n0 sys" and i: "in_order sys"
    by (simp_all add: ordered_def)
  have m': "mutex sys'"
    unfolding mutex_def
  proof (intro allI impI)
    fix u assume u: "u < length (threads sys')"
      and h: "holds_lock (pc (threads sys' ! u))"
    from u thr have u': "u < length (threads sys)" by simp
    from h new t thr have "u \<noteq> t" by auto
    with h thr have "holds_lock (pc (threads sys ! u))" by simp
    from mutexD [OF m u' this] lk
    show "lock sys' = Some u" by simp
  qed
  have c': "counted n0 sys'"
    using c tr by (simp add: counted_def)
  have i': "in_order sys'"
  proof (cases "lock sys")
    case None
    then show ?thesis using i tr lk by (simp add: in_order_def)
  next
    case (Some h)
    with i have hl: "h < length (threads sys)" and st: "in_step (events (engine sys)) (pc (threads sys ! h))"
      by (simp_all add: in_order_def)
    have "h \<noteq> t" using st old by (cases "pc (threads sys ! h)") auto
    moreover have "in_step (events (engine sys')) (pc (threads sys ! h))"
      using st tr by (cases "pc (threads sys ! h)") simp_all
    ultimately show ?thesis using Some hl lk thr by (simp add: in_order_def)
  qed
  from m' c' i' show ?thesis by (simp add: ordered_def)
qed

text \<open>The holder of the lock moves inside the critical section, or leaves it.\<close>

lemma holder_move:
  assumes ord: "ordered n0 sys" and t: "t < length (threads sys)"
    and old: "holds_lock (pc (threads sys ! t))"
    and thr: "threads sys' = (threads sys)[t := th]"
    and cnt: "consecutive n0 (assigned (events (engine sys')))"
             "next_op_id_index (engine sys') = n0 + of_nat (length (assigned (events (engine sys'))))"
    and new: "if holds_lock (pc th)
              then lock sys' = Some t \<and> in_step (events (engine sys')) (pc th)
              else lock sys' = None
                \<and> requested (events (engine sys')) = assigned (events (engine sys'))"
  shows "ordered n0 sys'"
proof -
  from ord have m: "mutex sys" and c: "counted n0 sys" and i: "in_order sys"
    by (simp_all add: ordered_def)
  from mutexD [OF m t old] have lk: "lock sys = Some t" .
  have others: "\<not> holds_lock (pc (threads sys ! u))" if "u < length (threads sys)" "u \<noteq> t" for u
    using mutex_other [OF m _ that(1)] lk that(2) by simp
  have m': "mutex sys'"
    unfolding mutex_def
  proof (intro allI impI)
    fix u assume u: "u < length (threads sys')"
      and h: "holds_lock (pc (threads sys' ! u))"
    from u thr have u': "u < length (threads sys)" by simp
    have "u = t"
    proof (rule ccontr)
      assume "u \<noteq> t"
      with h thr have "holds_lock (pc (threads sys ! u))" by simp
      with others [OF u' \<open>u \<noteq> t\<close>] show False by simp
    qed
    with h t thr have "holds_lock (pc th)" by simp
    with new \<open>u = t\<close> show "lock sys' = Some u" by simp
  qed
  have c': "counted n0 sys'" using cnt by (simp add: counted_def)
  have i': "in_order sys'" using new t thr by (simp add: in_order_def split: if_splits)
  from m' c' i' show ?thesis by (simp add: ordered_def)
qed

lemma ordered_process: "ordered n0 (sys\<lparr>process := p\<rparr>) = ordered n0 sys"
  by (simp add: ordered_def mutex_def counted_def in_order_def split: option.splits)

lemma step_ordered:
  assumes ord: "ordered n0 sys"
  shows "ordered n0 (step debug t sys)"
proof (cases "process sys \<noteq> Alive \<or> length (threads sys) \<le> t")
  case True
  then show ?thesis using ord by (simp add: step_def)
next
  case False
  then have t: "t < length (threads sys)" and alive: "process sys = Alive" by auto
  let ?th = "threads sys ! t"
  let ?s = "engine sys"
  let ?sys' = "step debug t sys"
  from ord have cnt: "counted n0 sys" and ino: "in_order sys" and mut: "mutex sys"
    by (simp_all add: ordered_def)
  show ?thesis
  proof (cases "pc ?th")
    case Entry
    show ?thesis
    proof (cases "replicate_op (t_round ?th)")
      case None
      then show ?thesis using Entry t alive ord
        by (simp add: step_def Let_def ordered_process)
    next
      case (Some op0)
      show ?thesis
      proof (cases "debug \<and> state_rank (state ?s) < state_rank kConfiguring")
        case True
        then show ?thesis using Entry t alive ord
          by (simp add: step_def Let_def ordered_process)
      next
        case False
        then have st: "?sys' = set_thread t (?th\<lparr>pc := AtLock (set_term 0 op0)\<rparr>) sys"
          using Entry Some t alive by (auto simp add: step_def Let_def)
        show ?thesis
          by (rule outside_move [OF ord t, where th = "?th\<lparr>pc := AtLock (set_term 0 op0)\<rparr>"])
             (simp_all add: Entry st set_thread_def)
      qed
    qed
  next
    case (AtLock op1)
    show ?thesis
    proof (cases "lock sys")
      case (Some h)
      then show ?thesis using AtLock t alive ord by (simp add: step_def Let_def)
    next
      case None
      have st: "?sys' = set_thread t (?th\<lparr>pc := AtAssign op1\<rparr>)
                   (sys\<lparr>lock := Some t, engine := emit EvLock ?s\<rparr>)"
        using AtLock None t alive by (simp add: step_def Let_def)
      have eq: "requested (events ?s) = assigned (events ?s)"
        using ino None by (simp add: in_order_def)
      have m': "mutex ?sys'"
        unfolding mutex_def
      proof (intro allI impI)
        fix u assume u: "u < length (threads ?sys')" and h: "holds_lock (pc (threads ?sys' ! u))"
        from u have u': "u < length (threads sys)" by (simp add: st set_thread_def)
        have "u = t"
        proof (rule ccontr)
          assume "u \<noteq> t"
          with h have "holds_lock (pc (threads sys ! u))" by (simp add: st set_thread_def)
          from mutexD [OF mut u' this] None show False by simp
        qed
        then show "lock ?sys' = Some u" by (simp add: st set_thread_def)
      qed
      have c': "counted n0 ?sys'"
        using cnt by (simp add: st set_thread_def counted_def emit_def assigned_append)
      have i': "in_order ?sys'"
        using t eq by (simp add: st set_thread_def in_order_def emit_def assigned_append
              requested_append requested_single)
      from m' c' i' show ?thesis by (simp add: ordered_def)
    qed
  next
    case (AtAssign op1)
    let ?n = "next_op_id_index ?s"
    let ?e = "emit (EvAssignIndex ?n) (?s\<lparr>next_op_id_index := ?n + 1\<rparr>)"
    let ?th' = "?th\<lparr>pc := AtReserve (set_index ?n op1),
                     t_round := (t_round ?th)\<lparr>replicate_op := Some (set_index ?n op1)\<rparr>\<rparr>"
    have st: "?sys' = set_thread t ?th' (sys\<lparr>engine := ?e\<rparr>)"
      using AtAssign t alive by (simp add: step_def Let_def)
    have hl: "holds_lock (pc ?th)" by (simp add: AtAssign)
    from mutexD [OF mut t hl] have lk: "lock sys = Some t" .
    from ino lk AtAssign have eq: "requested (events ?s) = assigned (events ?s)"
      by (simp add: in_order_def)
    show ?thesis
    proof (rule holder_move [OF ord t hl, where th = ?th'])
      show "threads ?sys' = (threads sys)[t := ?th']" by (simp add: st set_thread_def)
      show "consecutive n0 (assigned (events (engine ?sys')))"
        using cnt by (simp add: st set_thread_def counted_def emit_def assigned_append consecutive_snoc)
      show "next_op_id_index (engine ?sys') = n0 + of_nat (length (assigned (events (engine ?sys'))))"
        using cnt by (simp add: st set_thread_def counted_def emit_def assigned_append)
      show "if holds_lock (pc ?th')
            then lock ?sys' = Some t \<and> in_step (events (engine ?sys')) (pc ?th')
            else lock ?sys' = None
              \<and> requested (events (engine ?sys')) = assigned (events (engine ?sys'))"
        using eq lk by (simp add: st set_thread_def emit_def assigned_append requested_append
              requested_single index_of_set_index)
    qed
  next
    case (AtReserve op2)
    let ?st = "reserve_result (t_env ?th)"
    let ?e = "emit (EvReserve op2 ?st) ?s"
    let ?th' = "?th\<lparr>pc := AtUnlock op2 ?st\<rparr>"
    have st: "?sys' = set_thread t ?th' (sys\<lparr>engine := ?e\<rparr>)"
      using AtReserve t alive by (simp add: step_def Let_def)
    have hl: "holds_lock (pc ?th)" by (simp add: AtReserve)
    from mutexD [OF mut t hl] have lk: "lock sys = Some t" .
    from ino lk AtReserve have eq: "assigned (events ?s) = requested (events ?s) @ [index_of op2]"
      by (simp add: in_order_def)
    show ?thesis
    proof (rule holder_move [OF ord t hl, where th = ?th'])
      show "threads ?sys' = (threads sys)[t := ?th']" by (simp add: st set_thread_def)
      show "consecutive n0 (assigned (events (engine ?sys')))"
        using cnt by (simp add: st set_thread_def counted_def emit_def assigned_append)
      show "next_op_id_index (engine ?sys') = n0 + of_nat (length (assigned (events (engine ?sys'))))"
        using cnt by (simp add: st set_thread_def counted_def emit_def assigned_append)
      show "if holds_lock (pc ?th')
            then lock ?sys' = Some t \<and> in_step (events (engine ?sys')) (pc ?th')
            else lock ?sys' = None
              \<and> requested (events (engine ?sys')) = assigned (events (engine ?sys'))"
        using eq lk by (simp add: st set_thread_def emit_def assigned_append requested_append
              requested_single)
    qed
  next
    case (AtUnlock op2 st0)
    let ?e = "emit EvUnlock ?s"
    let ?th' = "?th\<lparr>pc := (if st0 \<noteq> OK then Done st0 else AtAppend op2)\<rparr>"
    have st: "?sys' = set_thread t ?th' (sys\<lparr>lock := None, engine := ?e\<rparr>)"
      using AtUnlock t alive by (simp add: step_def Let_def)
    have hl: "holds_lock (pc ?th)" by (simp add: AtUnlock)
    from mutexD [OF mut t hl] have lk: "lock sys = Some t" .
    from ino lk AtUnlock have eq: "requested (events ?s) = assigned (events ?s)"
      by (simp add: in_order_def)
    show ?thesis
    proof (rule holder_move [OF ord t hl, where th = ?th'])
      show "threads ?sys' = (threads sys)[t := ?th']" by (simp add: st set_thread_def)
      show "consecutive n0 (assigned (events (engine ?sys')))"
        using cnt by (simp add: st set_thread_def counted_def emit_def assigned_append)
      show "next_op_id_index (engine ?sys') = n0 + of_nat (length (assigned (events (engine ?sys'))))"
        using cnt by (simp add: st set_thread_def counted_def emit_def assigned_append)
      show "if holds_lock (pc ?th')
            then lock ?sys' = Some t \<and> in_step (events (engine ?sys')) (pc ?th')
            else lock ?sys' = None
              \<and> requested (events (engine ?sys')) = assigned (events (engine ?sys'))"
        using eq by (simp add: st set_thread_def emit_def assigned_append requested_append
              requested_single)
    qed
  next
    case (AtAppend op2)
    show ?thesis
    proof (cases "replicate_callback (t_round ?th)")
      case None
      then show ?thesis using AtAppend t alive ord
        by (simp add: step_def Let_def ordered_process)
    next
      case (Some cb)
      let ?st2 = "append_result (t_env ?th)"
      have st: "?sys' = set_thread t (?th\<lparr>pc := Done ?st2\<rparr>)
                  (sys\<lparr>engine := emit (EvAsyncAppend op2 cb ?st2) ?s\<rparr>)"
        using AtAppend Some t alive by (simp add: step_def Let_def)
      show ?thesis
        by (rule outside_move [OF ord t, where th = "?th\<lparr>pc := Done ?st2\<rparr>"])
           (simp_all add: AtAppend st set_thread_def emit_def assigned_append requested_append
              requested_single)
    qed
  next
    case (Done st)
    then show ?thesis using ord t alive by (simp add: step_def Let_def)
  qed
qed

lemma run_ordered: "ordered n0 sys \<Longrightarrow> ordered n0 (run debug sched sys)"
  by (induction sched arbitrary: sys) (simp_all add: step_ordered)


lemma in_order_prefix:
  assumes "in_order sys"
  shows "prefix (requested (events (engine sys))) (assigned (events (engine sys)))"
proof (cases "lock sys")
  case None
  with assms show ?thesis by (simp add: in_order_def)
next
  case (Some h)
  with assms have "in_step (events (engine sys)) (pc (threads sys ! h))"
    by (simp add: in_order_def)
  then show ?thesis by (cases "pc (threads sys ! h)") simp_all
qed

lemma in_order_settled:
  assumes "in_order sys" and "settled sys"
  shows "requested (events (engine sys)) = assigned (events (engine sys))"
proof (cases "lock sys")
  case None
  with assms show ?thesis by (simp add: in_order_def)
next
  case (Some h)
  with assms have h: "h < length (threads sys)"
    and st: "in_step (events (engine sys)) (pc (threads sys ! h))"
    by (simp_all add: in_order_def)
  from assms(2) h have "case pc (threads sys ! h) of AtReserve op \<Rightarrow> False | _ \<Rightarrow> True"
    by (simp add: settled_def list_all_length)
  with st show ?thesis by (cases "pc (threads sys ! h)") simp_all
qed


lemma initially_ordered:
  assumes "lock sys = None"
    and "list_all (\<lambda>th. pc th = Entry) (threads sys)"
    and "in_sequence n0 (engine sys)"
  shows "ordered n0 sys"
  using assms
  by (simp add: ordered_def mutex_def counted_def in_order_def in_sequence_def list_all_length)

subsection \<open>The trace only grows\<close>

lemma step_events: "\<exists>new. events (engine (step debug t sys)) = events (engine sys) @ new"
proof (cases "process sys \<noteq> Alive \<or> length (threads sys) \<le> t")
  case True
  then show ?thesis by (simp add: step_def)
next
  case False
  then show ?thesis
    by (cases "pc (threads sys ! t)")
       (auto simp: step_def Let_def set_thread_def emit_def split: option.splits)
qed

lemma run_events: "\<exists>new. events (engine (run debug sched sys)) = events (engine sys) @ new"
proof (induction sched arbitrary: sys)
  case Nil
  show ?case by simp
next
  case (Cons t ts)
  from step_events [of debug t sys]
  obtain a where a: "events (engine (step debug t sys)) = events (engine sys) @ a" ..
  from Cons.IH [of "step debug t sys"]
  obtain b where b: "events (engine (run debug ts (step debug t sys))) =
      events (engine (step debug t sys)) @ b" ..
  from a b have "events (engine (run debug (t # ts) sys)) = events (engine sys) @ (a @ b)"
    by simp
  then show ?case ..
qed

subsection \<open>Each caller assigns at most one index\<close>

lemma budget_update:
  assumes "budget k sys" and "t < length (threads sys)"
    and "threads sys' = (threads sys)[t := th]"
    and "length (assigned (events (engine sys'))) + (if waiting (pc th) then 1 else 0) =
         length (assigned (events (engine sys)))
           + (if waiting (pc (threads sys ! t)) then 1 else 0)"
  shows "budget k sys'"
proof -
  let ?P = "\<lambda>th. waiting (pc th)"
  from count_update [OF assms(2), of ?P th]
  have "length (filter ?P (threads sys')) + (if ?P (threads sys ! t) then 1 else 0) =
        length (filter ?P (threads sys)) + (if ?P th then 1 else 0)"
    by (simp add: assms(3))
  moreover from assms(1)
  have "length (assigned (events (engine sys))) + length (filter ?P (threads sys)) = k"
    by (simp add: budget_def)
  ultimately have "length (assigned (events (engine sys'))) + length (filter ?P (threads sys')) = k"
    using assms(4) by (simp split: if_splits)
  then show ?thesis by (simp add: budget_def)
qed

lemma budget_process: "budget k (sys\<lparr>process := p\<rparr>) = budget k sys"
  by (simp add: budget_def)

lemma step_budget:
  assumes b: "budget k sys"
  shows "budget k (step debug t sys)"
proof (cases "process sys \<noteq> Alive \<or> length (threads sys) \<le> t")
  case True
  then show ?thesis using b by (simp add: step_def)
next
  case False
  then have t: "t < length (threads sys)" and alive: "process sys = Alive" by auto
  let ?th = "threads sys ! t"
  let ?s = "engine sys"
  let ?sys' = "step debug t sys"
  show ?thesis
  proof (cases "pc ?th")
    case Entry
    show ?thesis
    proof (cases "replicate_op (t_round ?th)")
      case None
      then show ?thesis using Entry t alive b
        by (simp add: step_def Let_def budget_process)
    next
      case (Some op0)
      show ?thesis
      proof (cases "debug \<and> state_rank (state ?s) < state_rank kConfiguring")
        case True
        then show ?thesis using Entry t alive b
          by (simp add: step_def Let_def budget_process)
      next
        case False
        then have st: "?sys' = set_thread t (?th\<lparr>pc := AtLock (set_term 0 op0)\<rparr>) sys"
          using Entry Some t alive by (auto simp add: step_def Let_def)
        show ?thesis
          by (rule budget_update [OF b t, where th = "?th\<lparr>pc := AtLock (set_term 0 op0)\<rparr>"])
             (simp_all add: Entry st set_thread_def)
      qed
    qed
  next
    case (AtLock op1)
    show ?thesis
    proof (cases "lock sys")
      case (Some h)
      then show ?thesis using AtLock t alive b by (simp add: step_def Let_def)
    next
      case None
      have st: "?sys' = set_thread t (?th\<lparr>pc := AtAssign op1\<rparr>)
                   (sys\<lparr>lock := Some t, engine := emit EvLock ?s\<rparr>)"
        using AtLock None t alive by (simp add: step_def Let_def)
      show ?thesis
        by (rule budget_update [OF b t, where th = "?th\<lparr>pc := AtAssign op1\<rparr>"])
           (simp_all add: AtLock st set_thread_def emit_def assigned_append)
    qed
  next
    case (AtAssign op1)
    let ?n = "next_op_id_index ?s"
    let ?th' = "?th\<lparr>pc := AtReserve (set_index ?n op1),
                     t_round := (t_round ?th)\<lparr>replicate_op := Some (set_index ?n op1)\<rparr>\<rparr>"
    have st: "?sys' = set_thread t ?th'
                (sys\<lparr>engine := emit (EvAssignIndex ?n) (?s\<lparr>next_op_id_index := ?n + 1\<rparr>)\<rparr>)"
      using AtAssign t alive by (simp add: step_def Let_def)
    show ?thesis
      by (rule budget_update [OF b t, where th = ?th'])
         (simp_all add: AtAssign st set_thread_def emit_def assigned_append)
  next
    case (AtReserve op2)
    let ?th' = "?th\<lparr>pc := AtUnlock op2 (reserve_result (t_env ?th))\<rparr>"
    have st: "?sys' = set_thread t ?th'
                (sys\<lparr>engine := emit (EvReserve op2 (reserve_result (t_env ?th))) ?s\<rparr>)"
      using AtReserve t alive by (simp add: step_def Let_def)
    show ?thesis
      by (rule budget_update [OF b t, where th = ?th'])
         (simp_all add: AtReserve st set_thread_def emit_def assigned_append)
  next
    case (AtUnlock op2 st0)
    let ?th' = "?th\<lparr>pc := (if st0 \<noteq> OK then Done st0 else AtAppend op2)\<rparr>"
    have st: "?sys' = set_thread t ?th' (sys\<lparr>lock := None, engine := emit EvUnlock ?s\<rparr>)"
      using AtUnlock t alive by (simp add: step_def Let_def)
    show ?thesis
      by (rule budget_update [OF b t, where th = ?th'])
         (simp_all add: AtUnlock st set_thread_def emit_def assigned_append)
  next
    case (AtAppend op2)
    show ?thesis
    proof (cases "replicate_callback (t_round ?th)")
      case None
      then show ?thesis using AtAppend t alive b
        by (simp add: step_def Let_def budget_process)
    next
      case (Some cb)
      let ?st2 = "append_result (t_env ?th)"
      have st: "?sys' = set_thread t (?th\<lparr>pc := Done ?st2\<rparr>)
                  (sys\<lparr>engine := emit (EvAsyncAppend op2 cb ?st2) ?s\<rparr>)"
        using AtAppend Some t alive by (simp add: step_def Let_def)
      show ?thesis
        by (rule budget_update [OF b t, where th = "?th\<lparr>pc := Done ?st2\<rparr>"])
           (simp_all add: AtAppend st set_thread_def emit_def assigned_append)
    qed
  next
    case (Done st)
    then show ?thesis using b t alive by (simp add: step_def Let_def)
  qed
qed

lemma run_budget: "budget k sys \<Longrightarrow> budget k (run debug sched sys)"
  by (induction sched arbitrary: sys) (simp_all add: step_budget)

lemma initial_budget:
  assumes "list_all (\<lambda>th. pc th = Entry) (threads sys)"
  shows "budget (length (assigned (events (engine sys))) + length (threads sys)) sys"
proof -
  have "filter (\<lambda>th. waiting (pc th)) (threads sys) = threads sys"
    using assms by (simp add: list_all_iff)
  then show ?thesis by (simp add: budget_def)
qed

text \<open>
  From an engine in sequence, with room for one index for every caller below \<open>2^63\<close>, the
  indices assigned in any run read as consecutive integers.
\<close>

lemma run_in_range:
  assumes "list_all (\<lambda>th. pc th = Entry) (threads sys)"
    and "sint n0 + int (length (assigned (events (engine sys)))) + int (length (threads sys))
           \<le> 2 ^ 63"
  shows "sint n0 + int (length (assigned (events (engine (run debug sched sys))))) \<le> 2 ^ 63"
proof -
  from run_budget [OF initial_budget [OF assms(1)], of debug sched]
  have "length (assigned (events (engine (run debug sched sys))))
          \<le> length (assigned (events (engine sys))) + length (threads sys)"
    by (simp add: budget_def)
  with assms(2) show ?thesis by linarith
qed

subsection \<open>Any interleaving\<close>

lemma run_late_first:
  "events (engine (run True late_first two_callers)) =
     [EvLock, EvAssignIndex 10, EvReserve op7_10 OK, EvUnlock, EvLock,
      EvAsyncAppend op7_10 1 OK, EvAssignIndex 11, EvReserve op9_11 OK, EvUnlock,
      EvAsyncAppend op9_11 3 OK]"
  by (simp add: late_first_def two_callers_def new_system_def new_thread_def examples
        step_def Let_def set_thread_def emit_def set_term_def set_index_def mutable_id_def)

lemma settled_late_first: "settled (run True late_first two_callers)"
  by (simp add: late_first_def two_callers_def new_system_def new_thread_def examples
        step_def Let_def set_thread_def emit_def set_term_def set_index_def mutable_id_def
        settled_def)

lemma run_at_max:
  "assigned (events (engine (run True late_first two_at_max))) =
     [9223372036854775807, - 9223372036854775808]"
  by (simp add: late_first_def two_at_max_def engine_max_def new_system_def new_thread_def
        examples step_def Let_def set_thread_def emit_def set_term_def set_index_def
        mutable_id_def)

text \<open>
  C1: take an engine whose lock is free and whose past is in sequence from \<open>n0\<close> (as after
  \<open>Start\<close>), any number of threads about to call \<open>Replicate\<close>, whatever rounds they bring and
  whatever the log answers, and any schedule of their steps; let there be room below
  \<open>2^63\<close> for one index for every caller, so that the 64-bit counter does not wrap. Then
  the indices assigned, in the order of assignment, are \<open>n0, n0 + 1, ...\<close>: as signed values
  strictly increasing, and without duplicates. The indices passed to \<open>Reserve\<close>, in the
  order the log receives the calls, are a prefix of them, and all of them once no thread
  stands between its assignment and its call; the slots reserved are these in the same
  order, less the calls the log refused.
\<close>

theorem Replicate_concurrent_order:
  assumes "lock sys0 = None"
    and "list_all (\<lambda>th. pc th = Entry) (threads sys0)"
    and "in_sequence n0 (engine sys0)"
    and "sint n0 + int (length (assigned (events (engine sys0)))) + int (length (threads sys0))
           \<le> 2 ^ 63"
    and "tr = events (engine (run debug sched sys0))"
  shows "assigned tr = map (\<lambda>i. n0 + of_nat i) [0..<length (assigned tr)]
     \<and> map sint (assigned tr) = map (\<lambda>i. sint n0 + int i) [0..<length (assigned tr)]
     \<and> sorted_wrt (<) (map sint (assigned tr)) \<and> distinct (assigned tr)
     \<and> prefix (requested tr) (assigned tr)
     \<and> (settled (run debug sched sys0) \<longrightarrow> requested tr = assigned tr)
     \<and> subseq (reserved tr) (assigned tr)"
proof -
  let ?sys = "run debug sched sys0"
  have "ordered n0 sys0" using assms(1-3) by (rule initially_ordered)
  then have ord: "ordered n0 ?sys" by (rule run_ordered)
  then have c: "consecutive n0 (assigned tr)" and i: "in_order ?sys"
    by (simp_all add: ordered_def counted_def assms(5))
  have b: "sint n0 + int (length (assigned tr)) \<le> 2 ^ 63"
    unfolding assms(5) using assms(2,4) by (rule run_in_range)
  have m: "map sint (assigned tr) = map (\<lambda>i. sint n0 + int i) [0..<length (assigned tr)]"
    using c b by (rule consecutive_sint)
  have s: "sorted_wrt (<) (map sint (assigned tr))" using c b by (rule consecutive_sorted)
  have d: "distinct (assigned tr)" using c b by (rule consecutive_distinct)
  have p: "prefix (requested tr) (assigned tr)"
    using in_order_prefix [OF i] by (simp add: assms(5))
  have q: "requested tr = assigned tr" if "settled ?sys"
    using in_order_settled [OF i that] by (simp add: assms(5))
  have "subseq (requested tr) (assigned tr)" using p by (rule prefix_imp_subseq)
  with reserved_subseq [of tr] have r: "subseq (reserved tr) (assigned tr)"
    by (rule subseq_order.trans)
  from consecutive_map [OF c] m s d p q r show ?thesis by blast
qed

theorem Replicate_concurrent_order_witness:
  "lock two_callers = None
   \<and> list_all (\<lambda>th. pc th = Entry) (threads two_callers)
   \<and> in_sequence 10 (engine two_callers)
   \<and> sint (10 :: int64) + int (length (assigned (events (engine two_callers))))
        + int (length (threads two_callers)) = 12
   \<and> settled (run True late_first two_callers)
   \<and> assigned (events (engine (run True late_first two_callers))) = [10, 11]
   \<and> map sint (assigned (events (engine (run True late_first two_callers)))) = [10, 11]
   \<and> requested (events (engine (run True late_first two_callers))) = [10, 11]
   \<and> reserved (events (engine (run True late_first two_callers))) = [10, 11]"
proof -
  have a: "lock two_callers = None" by (simp add: two_callers_def new_system_def)
  have b: "list_all (\<lambda>th. pc th = Entry) (threads two_callers)"
    by (simp add: two_callers_def new_system_def new_thread_def)
  have c: "in_sequence 10 (engine two_callers)"
    by (simp add: two_callers_def new_system_def in_sequence_def runningA_def requested_def)
  have k: "sint (10 :: int64) + int (length (assigned (events (engine two_callers))))
        + int (length (threads two_callers)) = 12"
    by (simp add: two_callers_def new_system_def runningA_def)
  then have k': "sint (10 :: int64) + int (length (assigned (events (engine two_callers))))
        + int (length (threads two_callers)) \<le> 2 ^ 63" by simp
  have e: "assigned (events (engine (run True late_first two_callers))) = [10, 11]"
    by (simp add: run_late_first)
  have f: "reserved (events (engine (run True late_first two_callers))) = [10, 11]"
    by (simp add: run_late_first reserved_def index_of_def mutable_id_def op7_10_def op9_11_def)
  from Replicate_concurrent_order [OF a b c k' refl, of True late_first] settled_late_first
  have g: "requested (events (engine (run True late_first two_callers))) =
        assigned (events (engine (run True late_first two_callers)))" by simp
  have h: "map sint (assigned (events (engine (run True late_first two_callers)))) = [10, 11]"
    by (simp add: e)
  from a b c k settled_late_first e h g f show ?thesis by simp
qed

subsection \<open>A refused reservation\<close>

text \<open>
  C8: when \<open>Reserve\<close> fails, \<open>Replicate\<close> on a started engine returns the log's error and
  \<open>next_op_id_index\<close> stays raised by one (in 64-bit arithmetic; by one as an integer when
  it stood below \<open>2^63 - 1\<close>). The index \<open>n\<close> it consumed was assigned and no slot was
  reserved for it; the next call that succeeds is given \<open>n + 1\<close>; and whatever callers run
  afterwards, in any interleaving, no slot is ever reserved for \<open>n\<close>, as long as there is
  room below \<open>2^63\<close> for one index for each of them, so that the counter does not wrap.
\<close>

theorem Replicate_reserve_failure:
  assumes fail: "reserve_result ev \<noteq> OK"
    and op: "replicate_op r = Some op0"
    and started: "state_rank kConfiguring \<le> state_rank (state s)"
  shows "\<exists>s' r'. Replicate debug ev s r = Returns (reserve_result ev, s', r')
     \<and> next_op_id_index s' = next_op_id_index s + 1
     \<and> (sint (next_op_id_index s) < 2 ^ 63 - 1 \<longrightarrow>
          sint (next_op_id_index s') = sint (next_op_id_index s) + 1)
     \<and> assigned (events s') = assigned (events s) @ [next_op_id_index s]
     \<and> reserved (events s') = reserved (events s)
     \<and> (\<forall>debug2 ev2 r2 s'' r2'.
           Replicate debug2 ev2 s' r2 = Returns (OK, s'', r2') \<longrightarrow>
             assigned (events s'') = assigned (events s) @ [next_op_id_index s, next_op_id_index s + 1]
           \<and> reserved (events s'') = reserved (events s) @ [next_op_id_index s + 1])
     \<and> (\<forall>n0 ths debug2 sched.
           in_sequence n0 s \<and> list_all (\<lambda>th. pc th = Entry) ths
           \<and> sint n0 + int (length (assigned (events s))) + 1 + int (length ths) \<le> 2 ^ 63 \<longrightarrow>
             next_op_id_index s \<in> set (assigned (events (engine (run debug2 sched (new_system s' ths)))))
           \<and> next_op_id_index s \<notin> set (reserved (events (engine (run debug2 sched (new_system s' ths))))))"
proof -
  let ?n = "next_op_id_index s"
  let ?op = "set_index ?n (set_term 0 op0)"
  let ?call = "[EvLock, EvAssignIndex ?n, EvReserve ?op (reserve_result ev), EvUnlock]"
  let ?s' = "s\<lparr>next_op_id_index := ?n + 1, events := events s @ ?call\<rparr>"
  let ?r' = "r\<lparr>replicate_op := Some ?op\<rparr>"
  have ret: "Replicate debug ev s r = Returns (reserve_result ev, ?s', ?r')"
    using assms by (simp add: Replicate_def Let_def emit_def)
  have call_a: "assigned ?call = [?n]" by simp
  have call_q: "requested ?call = [?n]" by (simp add: requested_def index_of_set_index)
  have call_r: "reserved ?call = []" using fail by (simp add: reserved_def)
  have ev': "events ?s' = events s @ ?call" by simp
  have asg: "assigned (events ?s') = assigned (events s) @ [?n]"
    unfolding ev' assigned_append call_a by (rule refl)
  have req: "requested (events ?s') = requested (events s) @ [?n]"
    unfolding ev' requested_append call_q by (rule refl)
  have res: "reserved (events ?s') = reserved (events s)"
    unfolding ev' reserved_append call_r by simp
  have nxt: "\<forall>debug2 ev2 r2 s'' r2'.
           Replicate debug2 ev2 ?s' r2 = Returns (OK, s'', r2') \<longrightarrow>
             assigned (events s'') = assigned (events s) @ [?n, ?n + 1]
           \<and> reserved (events s'') = reserved (events s) @ [?n + 1]"
    using fail
    by (auto simp: Replicate_unfold reserved_def index_of_def assigned_append reserve_calls_append
          split: if_splits option.splits)
  have later: "?n \<in> set (assigned (events (engine (run debug2 sched (new_system ?s' ths)))))
       \<and> ?n \<notin> set (reserved (events (engine (run debug2 sched (new_system ?s' ths)))))"
    if seq: "in_sequence n0 s" and ent: "list_all (\<lambda>th. pc th = Entry) ths"
      and room: "sint n0 + int (length (assigned (events s))) + 1 + int (length ths) \<le> 2 ^ 63"
    for n0 ths debug2 sched
  proof -
    let ?F = "run debug2 sched (new_system ?s' ths)"
    from seq have c0: "consecutive n0 (assigned (events s))"
      and n: "?n = n0 + of_nat (length (assigned (events s)))"
      and q0: "requested (events s) = assigned (events s)"
      by (simp_all add: in_sequence_def)
    have "in_sequence n0 ?s'"
      unfolding in_sequence_def
    proof (intro conjI)
      show "consecutive n0 (assigned (events ?s'))"
        unfolding asg using c0 n by (simp add: consecutive_snoc)
      show "next_op_id_index ?s' = n0 + of_nat (length (assigned (events ?s')))"
        unfolding asg using n by simp
      show "requested (events ?s') = assigned (events ?s')"
        unfolding asg req using q0 by simp
    qed
    then have "ordered n0 (new_system ?s' ths)"
      using ent by (intro initially_ordered) (simp_all add: new_system_def)
    then have ord: "ordered n0 ?F" by (rule run_ordered)
    from run_events [of debug2 sched "new_system ?s' ths"]
    obtain new where new: "events (engine ?F) = events ?s' @ new"
      by (auto simp: new_system_def)
    have aF: "assigned (events (engine ?F)) = assigned (events s) @ [?n] @ assigned new"
      unfolding new assigned_append [of "events ?s'" new] asg by simp
    have qF: "requested (events (engine ?F)) = requested (events s) @ [?n] @ requested new"
      unfolding new requested_append [of "events ?s'" new] req by simp
    have rF: "reserved (events (engine ?F)) = reserved (events s) @ reserved new"
      unfolding new reserved_append [of "events ?s'" new] res by (rule refl)
    from ord have cons: "consecutive n0 (assigned (events (engine ?F)))"
      by (simp add: ordered_def counted_def)
    have "sint n0 + int (length (assigned (events (engine ?F)))) \<le> 2 ^ 63"
    proof (rule run_in_range)
      show "list_all (\<lambda>th. pc th = Entry) (threads (new_system ?s' ths))"
        using ent by (simp add: new_system_def)
      show "sint n0 + int (length (assigned (events (engine (new_system ?s' ths)))))
              + int (length (threads (new_system ?s' ths))) \<le> 2 ^ 63"
        using room by (simp add: new_system_def assigned_append)
    qed
    with cons have dist: "distinct (assigned (events (engine ?F)))"
      by (rule consecutive_distinct)
    from ord have "in_order ?F" by (simp add: ordered_def)
    then have "prefix (requested (events (engine ?F))) (assigned (events (engine ?F)))"
      by (rule in_order_prefix)
    then obtain zs where "assigned (events (engine ?F)) = requested (events (engine ?F)) @ zs"
      by (auto simp: prefix_def)
    with dist have "distinct (requested (events (engine ?F)))" by simp
    then have "?n \<notin> set (requested (events s))" and "?n \<notin> set (requested new)"
      by (simp_all add: qF)
    with reserved_subset [of "events s"] reserved_subset [of new]
    have "?n \<notin> set (reserved (events (engine ?F)))" by (auto simp: rF)
    moreover have "?n \<in> set (assigned (events (engine ?F)))" by (simp add: aF)
    ultimately show ?thesis by simp
  qed
  have later_all: "\<forall>n0 ths debug2 sched.
           in_sequence n0 s \<and> list_all (\<lambda>th. pc th = Entry) ths
           \<and> sint n0 + int (length (assigned (events s))) + 1 + int (length ths) \<le> 2 ^ 63 \<longrightarrow>
             ?n \<in> set (assigned (events (engine (run debug2 sched (new_system ?s' ths)))))
           \<and> ?n \<notin> set (reserved (events (engine (run debug2 sched (new_system ?s' ths)))))"
    using later by blast
  have cnt: "next_op_id_index ?s' = ?n + 1" by simp
  have cnt_int: "sint ?n < 2 ^ 63 - 1 \<longrightarrow> sint (next_op_id_index ?s') = sint ?n + 1"
    by (simp add: sint_succ)
  show ?thesis
  proof (intro exI conjI)
    show "Replicate debug ev s r = Returns (reserve_result ev, ?s', ?r')" by (rule ret)
  qed (rule cnt cnt_int asg res nxt later_all)+
qed


lemma Replicate_refused:
  "Replicate True env_log_closed runningA round1 =
     Returns (Error StorageError ''log closed'', failedA, round1\<lparr>replicate_op := Some op7_10\<rparr>)"
  by (simp add: Replicate_unfold failedA_def examples)

lemma run_two_later:
  "assigned (events (engine (run True late_first two_later))) = [10, 11, 12]
   \<and> reserved (events (engine (run True late_first two_later))) = [11, 12]"
  by (simp add: late_first_def two_later_def failedA_def new_system_def new_thread_def examples
        step_def Let_def set_thread_def emit_def set_term_def set_index_def mutable_id_def
        reserved_def index_of_def)

theorem Replicate_reserve_failure_witness:
  "reserve_result env_log_closed = Error StorageError ''log closed''
   \<and> replicate_op round1 = Some op7
   \<and> state runningA = kRunning
   \<and> in_sequence 10 runningA
   \<and> sint (10 :: int64) + int (length (assigned (events runningA))) + 1
        + int (length [new_thread round1 env_ok, new_thread round3 env_ok]) = 13
   \<and> Replicate True env_log_closed runningA round1 =
        Returns (Error StorageError ''log closed'', failedA, round1\<lparr>replicate_op := Some op7_10\<rparr>)
   \<and> next_op_id_index runningA = 10
   \<and> sint (next_op_id_index runningA) = 10
   \<and> next_op_id_index failedA = 11
   \<and> assigned (events (engine (run True late_first two_later))) = [10, 11, 12]
   \<and> reserved (events (engine (run True late_first two_later))) = [11, 12]
   \<and> 10 \<notin> set (reserved (events (engine (run True late_first two_later))))"
proof -
  have a: "reserve_result env_log_closed \<noteq> OK" by (simp add: env_log_closed_def)
  have b: "replicate_op round1 = Some op7" by (simp add: round1_def)
  have c: "state_rank kConfiguring \<le> state_rank (state runningA)" by (simp add: runningA_def)
  have d: "in_sequence 10 runningA" by (simp add: in_sequence_def runningA_def requested_def)
  have e: "list_all (\<lambda>th. pc th = Entry) [new_thread round1 env_ok, new_thread round3 env_ok]"
    by (simp add: new_thread_def)
  have n: "next_op_id_index runningA = 10" by (simp add: runningA_def)
  from Replicate_reserve_failure [OF a b c, of True]
  obtain s' r' where ret: "Replicate True env_log_closed runningA round1 =
        Returns (reserve_result env_log_closed, s', r')"
    and later: "\<forall>n0 ths debug2 sched.
           in_sequence n0 runningA \<and> list_all (\<lambda>th. pc th = Entry) ths
           \<and> sint n0 + int (length (assigned (events runningA))) + 1 + int (length ths)
                 \<le> 2 ^ 63 \<longrightarrow>
             next_op_id_index runningA \<in>
               set (assigned (events (engine (run debug2 sched (new_system s' ths)))))
           \<and> next_op_id_index runningA \<notin>
               set (reserved (events (engine (run debug2 sched (new_system s' ths)))))"
    by blast
  have k: "sint (10 :: int64) + int (length (assigned (events runningA))) + 1
        + int (length [new_thread round1 env_ok, new_thread round3 env_ok]) = 13"
    by (simp add: runningA_def)
  then have k': "sint (10 :: int64) + int (length (assigned (events runningA))) + 1
        + int (length [new_thread round1 env_ok, new_thread round3 env_ok]) \<le> 2 ^ 63"
    by simp
  from ret Replicate_refused have "s' = failedA" by simp
  with later d e k' have "next_op_id_index runningA \<notin>
      set (reserved (events (engine (run True late_first two_later))))"
    unfolding two_later_def by blast
  with n have g: "10 \<notin> set (reserved (events (engine (run True late_first two_later))))"
    by simp
  have h: "next_op_id_index failedA = 11" by (simp add: failedA_def)
  have i: "state runningA = kRunning" by (simp add: runningA_def)
  have j: "reserve_result env_log_closed = Error StorageError ''log closed''"
    by (simp add: env_log_closed_def)
  have n': "sint (next_op_id_index runningA) = 10" by (simp add: runningA_def)
  from j b i d k Replicate_refused n n' h run_two_later g show ?thesis by blast
qed

end
